theory Spec2Isabelle
  imports Complex_Main
begin

section \<open>Numbers and JavaScript idioms\<close>

text \<open>
  The matching code computes with JavaScript numbers. Scores are modelled as exact
  rationals and year counts as integers; the places where the source divides are guarded
  in the model exactly where the source's divisor can be zero, with the IEEE result
  (an infinity swallowed by \<open>Math.max(0, _)\<close>) written out.
\<close>

definition Math_round :: "rat \<Rightarrow> int" where
  \<comment> \<open>\<open>Math.round\<close>: the nearest integer, a half rounded up.\<close>
  "Math_round x = \<lfloor>x + 1 / 2\<rfloor>"


definition orElse :: "int option \<Rightarrow> int \<Rightarrow> int" where
  \<comment> \<open>\<open>x || d\<close> on a nullable number: \<open>null\<close>, \<open>undefined\<close> and \<open>0\<close> are falsy.\<close>
  "orElse x d = (case x of None \<Rightarrow> d | Some v \<Rightarrow> if v = 0 then d else v)"

definition truthy :: "int option \<Rightarrow> bool" where
  "truthy x = (case x of None \<Rightarrow> False | Some v \<Rightarrow> v \<noteq> 0)"

definition toNumberOr :: "rat option \<Rightarrow> rat \<Rightarrow> rat" where
  \<comment> \<open>\<open>d?.toNumber() || e\<close> on a nullable Decimal.\<close>
  "toNumberOr x d = (case x of None \<Rightarrow> d | Some v \<Rightarrow> if v = 0 then d else v)"

definition truthyStr :: "string option \<Rightarrow> bool" where
  \<comment> \<open>A nullable string is falsy when it is absent or empty.\<close>
  "truthyStr s = (case s of None \<Rightarrow> False | Some v \<Rightarrow> v \<noteq> [])"

definition lowerChar :: "char \<Rightarrow> char" where
  \<comment> \<open>\<open>toLowerCase\<close> on ASCII: the letters \<open>A\<close>..\<open>Z\<close> (codes 65..90) move to
      \<open>a\<close>..\<open>z\<close>, every other character stays.\<close>
  "lowerChar c = (if (65::nat) \<le> of_char c \<and> of_char c \<le> (90::nat)
                  then char_of (of_char c + (32::nat)) else c)"

definition toLowerCase :: "string \<Rightarrow> string" where
  "toLowerCase s = map lowerChar s"

section \<open>Data model\<close>

type_synonym timestamp = nat

record WorkerSkill =
  ws_userId :: string
  ws_skillCode :: string
  ws_deletedAt :: "timestamp option"

record WorkerEducation =
  we_userId :: string
  we_degreeLevel :: "string option"
  we_deletedAt :: "timestamp option"

record WorkerExperience =
  wx_userId :: string
  wx_startYear :: "int option"
  wx_endYear :: "int option"
  wx_deletedAt :: "timestamp option"

record WorkerProfile =
  wp_userId :: string
  wp_status :: string
  wp_deletedAt :: "timestamp option"
  wp_createdAt :: timestamp
  wp_city :: "string option"
  wp_state :: "string option"

record VacancySkill =
  vs_vacancyId :: string
  vs_skillCode :: string
  vs_isRequired :: bool
  vs_deletedAt :: "timestamp option"

record Vacancy =
  v_id :: string
  v_status :: string
  v_deletedAt :: "timestamp option"
  v_publishedAt :: timestamp
  experienceMinYears :: "int option"
  experienceMaxYears :: "int option"
  educationMinLevel :: "string option"
  locationCity :: "string option"
  locationState :: "string option"
  isRemote :: bool
  salaryMin :: "rat option"
  salaryMax :: "rat option"
  salaryIsNegotiable :: bool

record ScoreComponents =
  skillScore :: rat
  experienceScore :: rat
  educationScore :: rat
  locationScore :: rat
  salaryScore :: rat
  totalScore :: rat
  skillMatchCount :: nat
  skillRequiredCount :: nat
  isRecommended :: bool

section \<open>Score calculator shared by both paths\<close>

definition MIN_SCORE_THRESHOLD :: rat where
  "MIN_SCORE_THRESHOLD = 70"

definition hasSkillCode :: "VacancySkill list \<Rightarrow> WorkerSkill \<Rightarrow> bool" where
  \<comment> \<open>\<open>skills.some(vs => vs.skillCode === ws.skillCode)\<close>\<close>
  "hasSkillCode skills ws = list_ex (\<lambda>vs. vs_skillCode vs = ws_skillCode ws) skills"

definition totalYearsOf :: "int \<Rightarrow> WorkerExperience list \<Rightarrow> int" where
  \<comment> \<open>The \<open>reduce\<close> over the experience records; the first argument is
      \<open>new Date().getFullYear()\<close>.\<close>
  "totalYearsOf currentYear workerExperience =
     foldl (\<lambda>sum exp. sum + (orElse (wx_endYear exp) currentYear - orElse (wx_startYear exp) 0))
       0 workerExperience"

definition educationLevels :: "string list" where
  "educationLevels = [''HIGH_SCHOOL'', ''DIPLOMA'', ''BACHELOR'', ''MASTER'', ''DOCTORATE'']"

fun indexFrom :: "int \<Rightarrow> string list \<Rightarrow> string \<Rightarrow> int" where
  "indexFrom i [] x = -1"
| "indexFrom i (y # ys) x = (if y = x then i else indexFrom (i + 1) ys x)"

definition indexOf :: "string list \<Rightarrow> string option \<Rightarrow> int" where
  \<comment> \<open>\<open>Array.prototype.indexOf\<close>; an absent value is in no list of strings.\<close>
  "indexOf xs x = (case x of None \<Rightarrow> -1 | Some s \<Rightarrow> indexFrom 0 xs s)"

definition calculateEducationScore :: "WorkerEducation list \<Rightarrow> Vacancy \<Rightarrow> rat" where
  "calculateEducationScore workerEducation vacancy =
     (if \<not> truthyStr (educationMinLevel vacancy) then 50
      else let vacancyLevelIndex = indexOf educationLevels (educationMinLevel vacancy) in
        if vacancyLevelIndex = -1 then 50
        else if list_ex (\<lambda>edu. indexOf educationLevels (we_degreeLevel edu) \<ge> vacancyLevelIndex)
                  workerEducation
        then 100
        else max 0 (100 - of_int (vacancyLevelIndex * 25)))"

definition calculateLocationScore :: "WorkerProfile option \<Rightarrow> Vacancy \<Rightarrow> rat" where
  "calculateLocationScore workerProfile vacancy =
     (case workerProfile of
        None \<Rightarrow> 50
      | Some p \<Rightarrow>
         if \<not> truthyStr (locationCity vacancy) \<or> \<not> truthyStr (wp_city p) then 50
         else if map_option toLowerCase (wp_city p) = map_option toLowerCase (locationCity vacancy)
         then 100
         else if truthyStr (wp_state p) \<and> truthyStr (locationState vacancy) \<and>
                 map_option toLowerCase (wp_state p) = map_option toLowerCase (locationState vacancy)
         then 70
         else if isRemote vacancy then 90
         else 30)"

section \<open>Single-pair path: MatchingService\<close>

definition MatchingService_calculateSkillScore ::
  "WorkerSkill list \<Rightarrow> VacancySkill list \<Rightarrow> VacancySkill list \<Rightarrow> rat" where
  "MatchingService_calculateSkillScore workerSkills vacancySkills requiredSkills =
     (if length requiredSkills = 0 then 100
      else if length vacancySkills = 0 then 50
      else let matchedSkills = filter (hasSkillCode vacancySkills) workerSkills;
               matchRatio = of_nat (length matchedSkills) / of_nat (length requiredSkills)
           in of_int (Math_round (min matchRatio 1 * 100 * 100)) / 100)"

definition MatchingService_calculateExperienceScore ::
  "int \<Rightarrow> WorkerExperience list \<Rightarrow> Vacancy \<Rightarrow> rat" where
  "MatchingService_calculateExperienceScore currentYear workerExperience vacancy =
     (let minYears = orElse (experienceMinYears vacancy) 0;
          maxYears = orElse (experienceMaxYears vacancy) (minYears + 10)
      in if minYears = 0 \<and> maxYears = 0 then 100
         else let totalYears = totalYearsOf currentYear workerExperience in
           if totalYears \<ge> minYears \<and> totalYears \<le> maxYears then 100
           else if totalYears < minYears then
             (let deficit = minYears - totalYears in
              if minYears = 0 then 0
              else max 0 (100 - (of_int deficit / of_int minYears) * 100))
           else
             (let excess = totalYears - maxYears in
              if maxYears = 0 then 0
              else max 0 (100 - (of_int excess / of_int maxYears) * 100)))"

definition MatchingService_calculateSalaryScore :: "WorkerProfile option \<Rightarrow> Vacancy \<Rightarrow> rat" where
  "MatchingService_calculateSalaryScore workerProfile vacancy =
     (if salaryMin vacancy = None \<and> salaryMax vacancy = None then 50
      else if salaryIsNegotiable vacancy then 80
      else let salaryMin' = toNumberOr (salaryMin vacancy) 0;
               salaryMax' = toNumberOr (salaryMax vacancy) (salaryMin' * 2)
           in if salaryMin' = 0 \<and> salaryMax' = 0 then 50
              else let midPoint = (salaryMin' + salaryMax') / 2;
                       deviation = (1 / 2) * midPoint
                   in if deviation = 0 then 100
                      else let distance = \<bar>0 - midPoint\<bar>;
                               deviationPercent = distance / deviation
                           in max 0 (of_int (Math_round ((1 - deviationPercent) * 100 * 100)) / 100))"

definition computeScore ::
  "int \<Rightarrow> WorkerSkill list \<Rightarrow> WorkerEducation list \<Rightarrow> WorkerExperience list \<Rightarrow>
   VacancySkill list \<Rightarrow> Vacancy \<Rightarrow> WorkerProfile option \<Rightarrow> ScoreComponents" where
  "computeScore currentYear workerSkills workerEducation workerExperience vacancySkills vacancy
     workerProfile =
     (let requiredSkills = filter vs_isRequired vacancySkills;
          skillScore' = MatchingService_calculateSkillScore workerSkills vacancySkills requiredSkills;
          experienceScore' = MatchingService_calculateExperienceScore currentYear workerExperience vacancy;
          educationScore' = calculateEducationScore workerEducation vacancy;
          locationScore' = calculateLocationScore workerProfile vacancy;
          salaryScore' = MatchingService_calculateSalaryScore workerProfile vacancy;
          totalScore' = of_int (Math_round
            ((skillScore' * (40 / 100) + experienceScore' * (25 / 100) + educationScore' * (15 / 100) +
              locationScore' * (10 / 100) + salaryScore' * (10 / 100)) * 100)) / 100;
          isRecommended' = (totalScore' \<ge> MIN_SCORE_THRESHOLD)
      in \<lparr> skillScore = skillScore', experienceScore = experienceScore',
           educationScore = educationScore', locationScore = locationScore',
           salaryScore = salaryScore', totalScore = totalScore',
           skillMatchCount = length (filter (hasSkillCode vacancySkills) workerSkills),
           skillRequiredCount = length requiredSkills,
           isRecommended = isRecommended' \<rparr>)"

section \<open>Batch path: MatchingRepository\<close>

definition MatchingRepository_calculateSkillScore ::
  "WorkerSkill list \<Rightarrow> VacancySkill list \<Rightarrow> rat" where
  "MatchingRepository_calculateSkillScore workerSkills vacancySkills =
     (if length vacancySkills = 0 then 50
      else let matchedSkills = filter (hasSkillCode vacancySkills) workerSkills;
               matchRatio = of_nat (length matchedSkills) / of_nat (length vacancySkills)
           in of_int (Math_round (matchRatio * 100 * 100)) / 100)"

definition MatchingRepository_calculateExperienceScore ::
  "int \<Rightarrow> WorkerExperience list \<Rightarrow> Vacancy \<Rightarrow> rat" where
  "MatchingRepository_calculateExperienceScore currentYear workerExperience vacancy =
     (if \<not> truthy (experienceMinYears vacancy) \<and> \<not> truthy (experienceMaxYears vacancy) then 50
      else let totalYears = totalYearsOf currentYear workerExperience in
        if truthy (experienceMinYears vacancy) \<and> totalYears < the (experienceMinYears vacancy)
        then max 0 (100 - of_int ((the (experienceMinYears vacancy) - totalYears) * 10))
        else if truthy (experienceMaxYears vacancy) \<and> totalYears > the (experienceMaxYears vacancy)
        then max 0 (100 - of_int ((totalYears - the (experienceMaxYears vacancy)) * 5))
        else 100)"

definition MatchingRepository_calculateSalaryScore :: "WorkerProfile option \<Rightarrow> Vacancy \<Rightarrow> rat" where
  "MatchingRepository_calculateSalaryScore workerProfile vacancy =
     (if salaryMin vacancy = None \<and> salaryMax vacancy = None then 50
      else let expectedMin = toNumberOr (salaryMin vacancy) 0;
               expectedMax = toNumberOr (salaryMax vacancy) (expectedMin * 2)
           in if expectedMin = 0 \<and> expectedMax = 0 then 50 else 80)"

definition calculateScoreComponents ::
  "int \<Rightarrow> WorkerSkill list \<Rightarrow> WorkerEducation list \<Rightarrow> WorkerExperience list \<Rightarrow>
   VacancySkill list \<Rightarrow> Vacancy \<Rightarrow> WorkerProfile option \<Rightarrow> ScoreComponents" where
  "calculateScoreComponents currentYear workerSkills workerEducation workerExperience vacancySkills
     vacancy workerProfile =
     (let skillScore' = MatchingRepository_calculateSkillScore workerSkills vacancySkills;
          experienceScore' = MatchingRepository_calculateExperienceScore currentYear workerExperience vacancy;
          educationScore' = calculateEducationScore workerEducation vacancy;
          locationScore' = calculateLocationScore workerProfile vacancy;
          salaryScore' = MatchingRepository_calculateSalaryScore workerProfile vacancy;
          totalScore' = of_int (Math_round
            ((skillScore' * (40 / 100) + experienceScore' * (25 / 100) + educationScore' * (15 / 100) +
              locationScore' * (10 / 100) + salaryScore' * (10 / 100)) * 100)) / 100;
          requiredSkills = filter vs_isRequired vacancySkills;
          matchedRequiredSkills = filter (hasSkillCode requiredSkills) workerSkills;
          isRecommended' = (totalScore' \<ge> 70 \<and>
             (of_nat (length matchedRequiredSkills) :: rat) \<ge> of_nat (length requiredSkills) * (1 / 2))
      in \<lparr> skillScore = skillScore', experienceScore = experienceScore',
           educationScore = educationScore', locationScore = locationScore',
           salaryScore = salaryScore', totalScore = totalScore',
           skillMatchCount = length (filter (hasSkillCode vacancySkills) workerSkills),
           skillRequiredCount = length requiredSkills,
           isRecommended = isRecommended' \<rparr>)"

section \<open>Stored rows and the world the services act on\<close>

text \<open>
  \<open>ScoreResult\<close> is \<open>{ workerId, vacancyId, ...scores }\<close>: the score components
  extended by the pair's identity (\<open>sr_workerId\<close>, \<open>sr_vacancyId\<close>). A cached summary
  adds \<open>cachedAt\<close>, a stored \<open>MatchScore\<close> row adds \<open>calculatedAt\<close>.
\<close>

record ScoreResult = ScoreComponents +
  sr_workerId :: string
  sr_vacancyId :: string

record CachedMatchScore = ScoreResult +
  cachedAt :: timestamp

record MatchScore = ScoreResult +
  calculatedAt :: timestamp

datatype JsonValue = JString string | JNumber rat | JBool bool

record SecurityEvent =
  se_userId :: "string option"
  se_eventType :: string
  se_ipAddress :: "string option"
  se_details :: "(string \<times> JsonValue) list"

datatype RedisValue = RString string | RJson "CachedMatchScore list"

text \<open>
  The world: the relational tables the repository reads (lists of rows), the
  \<open>MatchScore\<close> table keyed by its composite key, the audit table, the Redis store
  (a value and the instant it expires, per key), and the clock. The clock is read by
  \<open>new Date()\<close>; time is counted in milliseconds.

  Reads and writes of the stores succeed: a store that cannot be reached is outside this
  model, and so are constraints of the database schema, which is not among the sources.
  The JSON text kept in Redis is identified with the list it encodes
  (\<open>JSON.parse (JSON.stringify xs) = xs\<close> for these records).
\<close>

record World =
  vacancy_table :: "Vacancy list"
  workerProfile_table :: "WorkerProfile list"
  workerSkill_table :: "WorkerSkill list"
  workerEducation_table :: "WorkerEducation list"
  workerExperience_table :: "WorkerExperience list"
  vacancySkill_table :: "VacancySkill list"
  matchScore_table :: "(string \<times> string) \<rightharpoonup> MatchScore"
  securityEvent_table :: "SecurityEvent list"
  redis :: "string \<rightharpoonup> (RedisValue \<times> timestamp)"
  clock :: timestamp
  calendarYear :: int

datatype error = NotFoundException string

record 'a PaginatedResult =
  items :: "'a list"
  totalCount :: nat
  page :: nat
  pageSize :: nat
  totalPages :: nat

section \<open>Redis primitives\<close>

definition keyPrefix :: string where
  "keyPrefix = ''matching:''"

definition redis_get :: "World \<Rightarrow> string \<Rightarrow> RedisValue option" where
  \<comment> \<open>\<open>GET\<close>: an entry whose lease has run out is gone.\<close>
  "redis_get w key =
     (case redis w (keyPrefix @ key) of
        None \<Rightarrow> None
      | Some (v, expiresAt) \<Rightarrow> if clock w < expiresAt then Some v else None)"

definition redis_setex :: "World \<Rightarrow> string \<Rightarrow> nat \<Rightarrow> RedisValue \<Rightarrow> World" where
  \<comment> \<open>\<open>SETEX key seconds value\<close>\<close>
  "redis_setex w key seconds v =
     w \<lparr> redis := (redis w)(keyPrefix @ key \<mapsto> (v, clock w + seconds * 1000)) \<rparr>"

definition redis_del :: "World \<Rightarrow> string \<Rightarrow> World" where
  "redis_del w key = w \<lparr> redis := (redis w)(keyPrefix @ key := None) \<rparr>"

definition redis_set_ex_nx :: "World \<Rightarrow> string \<Rightarrow> RedisValue \<Rightarrow> nat \<Rightarrow> bool \<times> World" where
  \<comment> \<open>\<open>SET key value EX seconds NX\<close>: \<open>OK\<close> only when the key holds no live entry.\<close>
  "redis_set_ex_nx w key v seconds =
     (if redis_get w key = None then (True, redis_setex w key seconds v) else (False, w))"

section \<open>MatchingCacheService\<close>

definition CACHE_TTL :: nat where "CACHE_TTL = 600"
definition CACHE_LIMIT :: nat where "CACHE_LIMIT = 50"
definition LOCK_TTL :: nat where "LOCK_TTL = 10"
definition LOCK_RETRY_DELAY :: nat where "LOCK_RETRY_DELAY = 50"
definition LOCK_MAX_RETRIES :: nat where "LOCK_MAX_RETRIES = 5"

definition readMatches :: "World \<Rightarrow> string \<Rightarrow> CachedMatchScore list option" where
  \<comment> \<open>\<open>GET\<close> then \<open>JSON.parse\<close>. Cache keys only ever hold the JSON that
      \<open>writeMatches\<close> stored; lock tokens live under keys that start with \<open>lock:\<close>.\<close>
  "readMatches w key = (case redis_get w key of Some (RJson ms) \<Rightarrow> Some ms | _ \<Rightarrow> None)"

definition writeMatches :: "World \<Rightarrow> string \<Rightarrow> CachedMatchScore list \<Rightarrow> World" where
  \<comment> \<open>The common body of \<open>setWorkerMatches\<close> and \<open>setVacancyMatches\<close>: nothing is
      written for an empty list; otherwise a copy is sorted by descending total score
      (\<open>Array.prototype.sort\<close> is stable), cut to \<open>CACHE_LIMIT\<close>, restamped and stored.\<close>
  "writeMatches w key matches =
     (if length matches = 0 then w
      else let sorted = take CACHE_LIMIT (sort_key (\<lambda>m. - totalScore m) matches);
               cacheData = map (\<lambda>m. m \<lparr> cachedAt := clock w \<rparr>) sorted
           in redis_setex w key CACHE_TTL (RJson cacheData))"

definition getWorkerMatches :: "World \<Rightarrow> string \<Rightarrow> CachedMatchScore list option" where
  "getWorkerMatches w workerId = readMatches w (''worker:'' @ workerId)"

definition setWorkerMatches :: "World \<Rightarrow> string \<Rightarrow> CachedMatchScore list \<Rightarrow> World" where
  "setWorkerMatches w workerId matches = writeMatches w (''worker:'' @ workerId) matches"

definition invalidateWorkerCache :: "World \<Rightarrow> string \<Rightarrow> World" where
  "invalidateWorkerCache w workerId = redis_del w (''worker:'' @ workerId)"

definition getVacancyMatches :: "World \<Rightarrow> string \<Rightarrow> CachedMatchScore list option" where
  "getVacancyMatches w vacancyId = readMatches w (''vacancy:'' @ vacancyId)"

definition setVacancyMatches :: "World \<Rightarrow> string \<Rightarrow> CachedMatchScore list \<Rightarrow> World" where
  "setVacancyMatches w vacancyId matches = writeMatches w (''vacancy:'' @ vacancyId) matches"

definition invalidateVacancyCache :: "World \<Rightarrow> string \<Rightarrow> World" where
  "invalidateVacancyCache w vacancyId = redis_del w (''vacancy:'' @ vacancyId)"

definition acquireLock :: "World \<Rightarrow> string \<Rightarrow> string \<Rightarrow> bool \<times> World" where
  "acquireLock w key owner = redis_set_ex_nx w (''lock:'' @ key) (RString owner) LOCK_TTL"

definition releaseLock :: "World \<Rightarrow> string \<Rightarrow> string \<Rightarrow> World" where
  \<comment> \<open>The Lua script runs atomically: delete the key only when it holds the owner's
      token.\<close>
  "releaseLock w key owner =
     (let lockKey = ''lock:'' @ key in
      if redis_get w lockKey = Some (RString owner) then redis_del w lockKey else w)"

section \<open>AuditService\<close>

definition isDigitOrDot :: "char \<Rightarrow> bool" where
  "isDigitOrDot c = (c = CHR ''.'' \<or> ((48::nat) \<le> of_char c \<and> of_char c \<le> (57::nat)))"

definition parseIpAddress :: "string \<Rightarrow> string" where
  \<comment> \<open>\<open>ip.match(/[\d.]+/)?.[0] || ip\<close>: the first run of digits and dots, else the input.\<close>
  "parseIpAddress ip =
     (let m = takeWhile isDigitOrDot (dropWhile (\<lambda>c. \<not> isDigitOrDot c) ip)
      in if m = [] then ip else m)"

definition auditLog ::
  "World \<Rightarrow> string \<Rightarrow> string option \<Rightarrow> string option \<Rightarrow> (string \<times> JsonValue) list \<Rightarrow> World" where
  \<comment> \<open>\<open>AuditService.log\<close>: one \<open>securityEvent\<close> row; failures are swallowed there.\<close>
  "auditLog w eventType userId ipAddress details =
     w \<lparr> securityEvent_table := securityEvent_table w @
         [\<lparr> se_userId = userId, se_eventType = eventType,
            se_ipAddress = (case ipAddress of
                              None \<Rightarrow> None
                            | Some ip \<Rightarrow> if ip = [] then None else Some (parseIpAddress ip)),
            se_details = details \<rparr>] \<rparr>"

section \<open>MatchingRepository: data access\<close>

definition CONCURRENCY_LIMIT :: nat where "CONCURRENCY_LIMIT = 20"

definition withPair :: "string \<Rightarrow> string \<Rightarrow> ScoreComponents \<Rightarrow> ScoreResult" where
  \<comment> \<open>\<open>{ workerId, vacancyId, ...scores }\<close>\<close>
  "withPair wid vid scores =
     \<lparr> skillScore = skillScore scores, experienceScore = experienceScore scores,
       educationScore = educationScore scores, locationScore = locationScore scores,
       salaryScore = salaryScore scores, totalScore = totalScore scores,
       skillMatchCount = skillMatchCount scores, skillRequiredCount = skillRequiredCount scores,
       isRecommended = isRecommended scores, sr_workerId = wid, sr_vacancyId = vid \<rparr>"

definition upsertMatchScore :: "World \<Rightarrow> ScoreResult \<Rightarrow> World" where
  \<comment> \<open>One row per \<open>(workerId, vacancyId)\<close>: created, or overwritten with a fresh
      \<open>calculatedAt\<close>.\<close>
  "upsertMatchScore w d =
     w \<lparr> matchScore_table := (matchScore_table w)((sr_workerId d, sr_vacancyId d) \<mapsto>
         \<lparr> skillScore = skillScore d, experienceScore = experienceScore d,
           educationScore = educationScore d, locationScore = locationScore d,
           salaryScore = salaryScore d, totalScore = totalScore d,
           skillMatchCount = skillMatchCount d, skillRequiredCount = skillRequiredCount d,
           isRecommended = isRecommended d, sr_workerId = sr_workerId d,
           sr_vacancyId = sr_vacancyId d, calculatedAt = clock w \<rparr>) \<rparr>"

definition getWorkerSkills :: "World \<Rightarrow> string \<Rightarrow> WorkerSkill list" where
  "getWorkerSkills w wid =
     filter (\<lambda>s. ws_userId s = wid \<and> ws_deletedAt s = None) (workerSkill_table w)"

definition getWorkerEducation :: "World \<Rightarrow> string \<Rightarrow> WorkerEducation list" where
  "getWorkerEducation w wid =
     filter (\<lambda>e. we_userId e = wid \<and> we_deletedAt e = None) (workerEducation_table w)"

definition getWorkerExperience :: "World \<Rightarrow> string \<Rightarrow> WorkerExperience list" where
  "getWorkerExperience w wid =
     filter (\<lambda>e. wx_userId e = wid \<and> wx_deletedAt e = None) (workerExperience_table w)"

definition getVacancySkills :: "World \<Rightarrow> string \<Rightarrow> VacancySkill list" where
  "getVacancySkills w vid =
     filter (\<lambda>s. vs_vacancyId s = vid \<and> vs_deletedAt s = None) (vacancySkill_table w)"

definition getVacancy :: "World \<Rightarrow> string \<Rightarrow> Vacancy option" where
  "getVacancy w vid = find (\<lambda>v. v_id v = vid \<and> v_deletedAt v = None) (vacancy_table w)"

definition getWorkerProfile :: "World \<Rightarrow> string \<Rightarrow> WorkerProfile option" where
  "getWorkerProfile w wid = find (\<lambda>p. wp_userId p = wid) (workerProfile_table w)"

definition orderByDesc :: "('a \<Rightarrow> nat) \<Rightarrow> 'a list \<Rightarrow> 'a list" where
  \<comment> \<open>\<open>orderBy: { field: 'desc' }\<close>, with a fixed order among equal keys.\<close>
  "orderByDesc f xs = rev (sort_key f xs)"

definition openVacancies :: "World \<Rightarrow> Vacancy list" where
  \<comment> \<open>\<open>where: { status: 'OPEN', deletedAt: null }\<close>\<close>
  "openVacancies w = filter (\<lambda>v. v_status v = ''OPEN'' \<and> v_deletedAt v = None) (vacancy_table w)"

definition activeWorkers :: "World \<Rightarrow> WorkerProfile list" where
  \<comment> \<open>\<open>where: { status: 'ACTIVE', deletedAt: null }\<close>\<close>
  "activeWorkers w =
     filter (\<lambda>p. wp_status p = ''ACTIVE'' \<and> wp_deletedAt p = None) (workerProfile_table w)"

definition paginate :: "'a list \<Rightarrow> nat \<Rightarrow> nat \<Rightarrow> 'a PaginatedResult" where
  \<comment> \<open>\<open>skip: (page - 1) * enforcedPageSize, take: enforcedPageSize\<close> over the ordered
      selection, with its count. Pages are numbered from 1, and the callers pass the page
      size 200, so the divisor of \<open>Math.ceil\<close> is positive.\<close>
  "paginate selection p ps =
     (let enforcedPageSize = min ps 200
      in \<lparr> items = take enforcedPageSize (drop ((p - 1) * enforcedPageSize) selection),
           totalCount = length selection,
           page = p,
           pageSize = enforcedPageSize,
           totalPages = (length selection + enforcedPageSize - 1) div enforcedPageSize \<rparr>)"

definition getActiveVacanciesForWorker ::
  "World \<Rightarrow> string \<Rightarrow> nat \<Rightarrow> nat \<Rightarrow> Vacancy PaginatedResult" where
  "getActiveVacanciesForWorker w wid p ps = paginate (orderByDesc v_publishedAt (openVacancies w)) p ps"

definition getActiveWorkersForVacancy ::
  "World \<Rightarrow> string \<Rightarrow> nat \<Rightarrow> nat \<Rightarrow> WorkerProfile PaginatedResult" where
  "getActiveWorkersForVacancy w vid p ps = paginate (orderByDesc wp_createdAt (activeWorkers w)) p ps"

section \<open>MatchingRepository: batch recalculation\<close>

function chunksFrom :: "nat \<Rightarrow> 'a list \<Rightarrow> 'a list list" where
  \<comment> \<open>\<open>for (let i = 0; i < ids.length; i += CONCURRENCY_LIMIT)
        chunks.push(ids.slice(i, i + CONCURRENCY_LIMIT))\<close>\<close>
  "chunksFrom i xs =
     (if i < length xs then take CONCURRENCY_LIMIT (drop i xs) # chunksFrom (i + CONCURRENCY_LIMIT) xs
      else [])"
  by pat_completeness auto
termination
  by (relation "measure (\<lambda>(i, xs). length xs - i)") (auto simp: CONCURRENCY_LIMIT_def)

declare chunksFrom.simps [simp del]

fun promiseAll :: "('a \<Rightarrow> World \<Rightarrow> nat \<times> World) \<Rightarrow> 'a list \<Rightarrow> World \<Rightarrow> nat list \<times> World" where
  \<comment> \<open>\<open>await Promise.all(chunk.map(f))\<close>. The promises of a chunk each end in one upsert
      of their own pair; they are run here in list order.\<close>
  "promiseAll f [] w = ([], w)"
| "promiseAll f (x # xs) w =
     (let (r, w1) = f x w; (rs, w2) = promiseAll f xs w1 in (r # rs, w2))"

definition runChunks ::
  "('a \<Rightarrow> World \<Rightarrow> nat \<times> World) \<Rightarrow> 'a list list \<Rightarrow> World \<Rightarrow> nat \<times> World" where
  \<comment> \<open>\<open>for (const chunk of chunks) { results = await Promise.all(...);
        totalCalculated += results.reduce((sum, r) => sum + r, 0) }\<close>\<close>
  "runChunks f chunks w =
     foldl (\<lambda>(totalCalculated, w0) chunk.
              let (results, w1) = promiseAll f chunk w0
              in (totalCalculated + foldl (+) 0 results, w1))
       (0, w) chunks"

definition groupInto :: "('a \<Rightarrow> string) \<Rightarrow> 'a list \<Rightarrow> (string \<rightharpoonup> 'a list)" where
  \<comment> \<open>The loops that fill a \<open>Map<string, any[]>\<close>: each row is pushed onto the list of
      its owner, which is created empty on first sight.\<close>
  "groupInto key rows =
     foldl (\<lambda>m r. m(key r \<mapsto> (case m (key r) of None \<Rightarrow> [] | Some rs \<Rightarrow> rs) @ [r]))
       Map.empty rows"

definition getOrEmpty :: "(string \<rightharpoonup> 'a list) \<Rightarrow> string \<Rightarrow> 'a list" where
  \<comment> \<open>\<open>map.get(id) || []\<close>\<close>
  "getOrEmpty m k = (case m k of None \<Rightarrow> [] | Some rs \<Rightarrow> rs)"

definition recalculateBatchForWorker :: "World \<Rightarrow> string \<Rightarrow> string list \<Rightarrow> nat \<times> World" where
  "recalculateBatchForWorker w wid vacancyIds =
     (let workerSkills = getWorkerSkills w wid;
          workerEducation = getWorkerEducation w wid;
          workerExperience = getWorkerExperience w wid;
          workerProfile = getWorkerProfile w wid;
          vacancies = filter (\<lambda>v. v_id v \<in> set vacancyIds \<and> v_deletedAt v = None) (vacancy_table w);
          vacancySkills = filter (\<lambda>s. vs_vacancyId s \<in> set vacancyIds \<and> vs_deletedAt s = None)
                            (vacancySkill_table w);
          vacancyMap = map_of (rev (map (\<lambda>v. (v_id v, v)) vacancies));
          vacancySkillsMap = groupInto vs_vacancyId vacancySkills;
          processVacancy = (\<lambda>vid w0.
             case vacancyMap vid of
               None \<Rightarrow> (0, w0)
             | Some vacancy \<Rightarrow>
                 let vSkills = getOrEmpty vacancySkillsMap vid;
                     scores = calculateScoreComponents (calendarYear w0) workerSkills workerEducation
                                workerExperience vSkills vacancy workerProfile
                 in (1, upsertMatchScore w0 (withPair wid vid scores)))
      in runChunks processVacancy (chunksFrom 0 vacancyIds) w)"

definition recalculateBatchForVacancy :: "World \<Rightarrow> string \<Rightarrow> string list \<Rightarrow> nat \<times> World" where
  "recalculateBatchForVacancy w vid workerIds =
     (case getVacancy w vid of
        None \<Rightarrow> (0, w)
      | Some vacancy \<Rightarrow>
         let vacancySkills = getVacancySkills w vid;
             workerProfiles = filter (\<lambda>p. wp_userId p \<in> set workerIds) (workerProfile_table w);
             workerSkillsList = filter (\<lambda>s. ws_userId s \<in> set workerIds \<and> ws_deletedAt s = None)
                                  (workerSkill_table w);
             workerEducationList = filter (\<lambda>e. we_userId e \<in> set workerIds \<and> we_deletedAt e = None)
                                     (workerEducation_table w);
             workerExperienceList = filter (\<lambda>e. wx_userId e \<in> set workerIds \<and> wx_deletedAt e = None)
                                      (workerExperience_table w);
             workerProfileMap = map_of (rev (map (\<lambda>p. (wp_userId p, p)) workerProfiles));
             workerSkillsMap = groupInto ws_userId workerSkillsList;
             workerEducationMap = groupInto we_userId workerEducationList;
             workerExperienceMap = groupInto wx_userId workerExperienceList;
             processWorker = (\<lambda>wid w0.
                let workerSkills = getOrEmpty workerSkillsMap wid;
                    workerEducation = getOrEmpty workerEducationMap wid;
                    workerExperience = getOrEmpty workerExperienceMap wid;
                    workerProfile = workerProfileMap wid;
                    scores = calculateScoreComponents (calendarYear w0) workerSkills workerEducation
                               workerExperience vacancySkills vacancy workerProfile
                in (1, upsertMatchScore w0 (withPair wid vid scores)))
         in runChunks processWorker (chunksFrom 0 workerIds) w)"

section \<open>MatchingService: orchestration\<close>

definition BATCH_SIZE :: nat where "BATCH_SIZE = 200"

record RecalcResult =
  calculated :: nat
  batch :: nat

definition toScoreResultDetails :: "string \<Rightarrow> string \<Rightarrow> ScoreComponents \<Rightarrow> (string \<times> JsonValue) list" where
  "toScoreResultDetails wid vid scores =
     [(''workerId'', JString wid), (''vacancyId'', JString vid),
      (''totalScore'', JNumber (totalScore scores)), (''isRecommended'', JBool (isRecommended scores))]"

definition calculateScore :: "World \<Rightarrow> string \<Rightarrow> string \<Rightarrow> (error + ScoreResult) \<times> World" where
  \<comment> \<open>The six reads come first and change nothing; a missing vacancy throws before the
      upsert and the audit entry.\<close>
  "calculateScore w wid vid =
     (let vacancy = getVacancy w vid;
          workerProfile = getWorkerProfile w wid;
          workerSkills = getWorkerSkills w wid;
          workerEducation = getWorkerEducation w wid;
          workerExperience = getWorkerExperience w wid;
          vacancySkills = getVacancySkills w vid
      in case vacancy of
           None \<Rightarrow> (Inl (NotFoundException ''VACANCY_NOT_FOUND''), w)
         | Some v \<Rightarrow>
             let scores = computeScore (calendarYear w) workerSkills workerEducation workerExperience
                            vacancySkills v workerProfile;
                 w1 = upsertMatchScore w (withPair wid vid scores);
                 w2 = auditLog w1 ''MATCH_SCORE_CALCULATED'' (Some wid) None
                        (toScoreResultDetails wid vid scores)
             in (Inr (withPair wid vid scores), w2))"

partial_function (option) recalcForWorker_loop ::
  "string \<Rightarrow> nat \<Rightarrow> nat \<Rightarrow> nat \<Rightarrow> World \<Rightarrow> ((nat \<times> nat) \<times> World) option" where
  \<comment> \<open>The \<open>while (true)\<close> loop; \<open>None\<close> stands for a loop that never leaves.\<close>
  "recalcForWorker_loop wid p totalCalculated batchCount w =
     (let result = getActiveVacanciesForWorker w wid p BATCH_SIZE in
      if length (items result) = 0 then Some ((totalCalculated, batchCount), w)
      else
        let vacancyIds = map v_id (items result);
            cw = recalculateBatchForWorker w wid vacancyIds
        in if length (items result) < BATCH_SIZE
           then Some ((totalCalculated + fst cw, batchCount + 1), snd cw)
           else recalcForWorker_loop wid (p + 1) (totalCalculated + fst cw) (batchCount + 1) (snd cw))"

definition recalcDetails :: "string \<Rightarrow> string \<Rightarrow> nat \<Rightarrow> nat \<Rightarrow> (string \<times> JsonValue) list" where
  "recalcDetails idName idValue totalCalculated batches =
     [(idName, JString idValue), (''totalCalculated'', JNumber (of_nat totalCalculated)),
      (''batches'', JNumber (of_nat batches))]"

definition orSystem :: "string option \<Rightarrow> string" where
  \<comment> \<open>\<open>ipAddress || 'system'\<close>\<close>
  "orSystem ip = (case ip of None \<Rightarrow> ''system'' | Some s \<Rightarrow> if s = [] then ''system'' else s)"

definition recalcForWorker :: "World \<Rightarrow> string \<Rightarrow> string option \<Rightarrow> (RecalcResult \<times> World) option" where
  "recalcForWorker w wid ipAddress =
     (case recalcForWorker_loop wid 1 0 0 w of
        None \<Rightarrow> None
      | Some ((totalCalculated, batchCount), w1) \<Rightarrow>
          let w2 = auditLog w1 ''WORKER_MATCHES_RECALCULATED'' (Some wid) (Some (orSystem ipAddress))
                     (recalcDetails ''workerId'' wid totalCalculated batchCount);
              w3 = invalidateWorkerCache w2 wid
          in Some (\<lparr> calculated = totalCalculated, batch = batchCount \<rparr>, w3))"

partial_function (option) recalcForVacancy_loop ::
  "string \<Rightarrow> nat \<Rightarrow> nat \<Rightarrow> nat \<Rightarrow> World \<Rightarrow> ((nat \<times> nat) \<times> World) option" where
  "recalcForVacancy_loop vid p totalCalculated batchCount w =
     (let result = getActiveWorkersForVacancy w vid p BATCH_SIZE in
      if length (items result) = 0 then Some ((totalCalculated, batchCount), w)
      else
        let workerIds = map wp_userId (items result);
            cw = recalculateBatchForVacancy w vid workerIds
        in if length (items result) < BATCH_SIZE
           then Some ((totalCalculated + fst cw, batchCount + 1), snd cw)
           else recalcForVacancy_loop vid (p + 1) (totalCalculated + fst cw) (batchCount + 1) (snd cw))"

definition recalcForVacancy ::
  "World \<Rightarrow> string \<Rightarrow> string option \<Rightarrow> ((error + RecalcResult) \<times> World) option" where
  "recalcForVacancy w vid ipAddress =
     (case getVacancy w vid of
        None \<Rightarrow> Some (Inl (NotFoundException ''VACANCY_NOT_FOUND''), w)
      | Some vacancy \<Rightarrow>
         (case recalcForVacancy_loop vid 1 0 0 w of
            None \<Rightarrow> None
          | Some ((totalCalculated, batchCount), w1) \<Rightarrow>
              let w2 = auditLog w1 ''VACANCY_MATCHES_RECALCULATED'' (Some ''system'')
                         (Some (orSystem ipAddress))
                         (recalcDetails ''vacancyId'' vid totalCalculated batchCount);
                  w3 = invalidateVacancyCache w2 vid
              in Some (Inr \<lparr> calculated = totalCalculated, batch = batchCount \<rparr>, w3)))"

section \<open>Frames\<close>

definition onlyMatchScores :: "World \<Rightarrow> World \<Rightarrow> bool" where
  \<comment> \<open>The second world differs from the first in the \<open>MatchScore\<close> table at most.\<close>
  "onlyMatchScores w w' = (\<exists>m. w' = w \<lparr> matchScore_table := m \<rparr>)"

section \<open>MatchingCacheService: the single-flight read\<close>

text \<open>
  \<open>getOrSetWorkerCache\<close> and \<open>getOrSetVacancyCache\<close> are the same procedure over the
  worker and the vacancy key. A call runs between its \<open>await\<close>s without interruption,
  and other calls run while it waits; so a call is modelled as a machine whose steps are
  its awaited operations, and a system of calls as their interleaving over one world. The
  program counter names the operation that comes next. Each call carries four counters
  that the code does not have (what a test double would count): the locks it acquired,
  the acquisitions that failed, and its fetcher invocations under the lock and in the
  fallback.
\<close>

datatype Subject = WorkerSubject | VacancySubject

definition cacheKey :: "Subject \<Rightarrow> string \<Rightarrow> string" where
  "cacheKey s ident = (case s of WorkerSubject \<Rightarrow> ''worker:'' @ ident
                               | VacancySubject \<Rightarrow> ''vacancy:'' @ ident)"

definition getMatches :: "Subject \<Rightarrow> World \<Rightarrow> string \<Rightarrow> CachedMatchScore list option" where
  "getMatches s w ident = (case s of WorkerSubject \<Rightarrow> getWorkerMatches w ident
                                   | VacancySubject \<Rightarrow> getVacancyMatches w ident)"

definition setMatches :: "Subject \<Rightarrow> World \<Rightarrow> string \<Rightarrow> CachedMatchScore list \<Rightarrow> World" where
  "setMatches s w ident ms = (case s of WorkerSubject \<Rightarrow> setWorkerMatches w ident ms
                                      | VacancySubject \<Rightarrow> setVacancyMatches w ident ms)"

datatype Pc =
    ReadCache
  | AcquireLock nat
  | DoubleCheck
  | Fetch
  | SetMatches "CachedMatchScore list"
  | ReleaseLock "CachedMatchScore list"
  | Sleeping nat timestamp
  | Recheck nat
  | Fallback
  | Returned "CachedMatchScore list"

record Call =
  subject :: Subject
  subjectId :: string
  lockOwner :: string
  fetcher :: "World \<Rightarrow> CachedMatchScore list"
  pc :: Pc
  lockCycles :: nat
  failedAttempts :: nat
  lockedFetches :: nat
  fallbackFetches :: nat

definition loopHead :: "nat \<Rightarrow> Pc" where
  \<comment> \<open>\<open>attempts < LOCK_MAX_RETRIES\<close>: another attempt, or the fallback after the loop.\<close>
  "loopHead attempts = (if attempts < LOCK_MAX_RETRIES then AcquireLock attempts else Fallback)"

definition callStep :: "World \<Rightarrow> Call \<Rightarrow> World \<times> Call" where
  "callStep w c =
     (case pc c of
        ReadCache \<Rightarrow>
          (case getMatches (subject c) w (subjectId c) of
             Some cached \<Rightarrow> (w, c \<lparr> pc := Returned cached \<rparr>)
           | None \<Rightarrow> (w, c \<lparr> pc := loopHead 0 \<rparr>))
      | AcquireLock attempts \<Rightarrow>
          (let (lockAcquired, w') = acquireLock w (cacheKey (subject c) (subjectId c)) (lockOwner c)
           in if lockAcquired
              then (w', c \<lparr> pc := DoubleCheck, lockCycles := lockCycles c + 1 \<rparr>)
              else (w', c \<lparr> pc := Sleeping attempts (clock w + LOCK_RETRY_DELAY),
                            failedAttempts := failedAttempts c + 1 \<rparr>))
      | DoubleCheck \<Rightarrow>
          (case getMatches (subject c) w (subjectId c) of
             Some doubleCheck \<Rightarrow> (w, c \<lparr> pc := ReleaseLock doubleCheck \<rparr>)
           | None \<Rightarrow> (w, c \<lparr> pc := Fetch \<rparr>))
      | Fetch \<Rightarrow>
          (w, c \<lparr> pc := SetMatches (fetcher c w), lockedFetches := lockedFetches c + 1 \<rparr>)
      | SetMatches matches \<Rightarrow>
          (setMatches (subject c) w (subjectId c) matches, c \<lparr> pc := ReleaseLock matches \<rparr>)
      | ReleaseLock result \<Rightarrow>
          (releaseLock w (cacheKey (subject c) (subjectId c)) (lockOwner c),
           c \<lparr> pc := Returned result \<rparr>)
      | Sleeping attempts wakeAt \<Rightarrow>
          (if wakeAt \<le> clock w then (w, c \<lparr> pc := Recheck attempts \<rparr>) else (w, c))
      | Recheck attempts \<Rightarrow>
          (case getMatches (subject c) w (subjectId c) of
             Some retryCached \<Rightarrow> (w, c \<lparr> pc := Returned retryCached \<rparr>)
           | None \<Rightarrow> (w, c \<lparr> pc := loopHead (attempts + 1) \<rparr>))
      | Fallback \<Rightarrow>
          (w, c \<lparr> pc := Returned (fetcher c w), fallbackFetches := fallbackFetches c + 1 \<rparr>)
      | Returned result \<Rightarrow> (w, c))"

definition getOrSetCache ::
  "Subject \<Rightarrow> string \<Rightarrow> string \<Rightarrow> (World \<Rightarrow> CachedMatchScore list) \<Rightarrow> Call" where
  \<comment> \<open>A call of \<open>getOrSetWorkerCache\<close> or \<open>getOrSetVacancyCache\<close> that has not started.\<close>
  "getOrSetCache s ident own f =
     \<lparr> subject = s, subjectId = ident, lockOwner = own, fetcher = f, pc = ReadCache,
       lockCycles = 0, failedAttempts = 0, lockedFetches = 0, fallbackFetches = 0 \<rparr>"

record System =
  world :: World
  calls :: "Call list"

datatype Event = Run nat | Tick nat

definition systemStep :: "System \<Rightarrow> Event \<Rightarrow> System" where
  \<comment> \<open>\<open>Run i\<close>: the call at position \<open>i\<close> performs its next operation.
      \<open>Tick d\<close>: \<open>d\<close> milliseconds pass.\<close>
  "systemStep sys e =
     (case e of
        Run i \<Rightarrow>
          if i < length (calls sys)
          then let (w', c') = callStep (world sys) (calls sys ! i)
               in sys \<lparr> world := w', calls := (calls sys)[i := c'] \<rparr>
          else sys
      | Tick d \<Rightarrow> sys \<lparr> world := (world sys) \<lparr> clock := clock (world sys) + d \<rparr> \<rparr>)"

definition run :: "System \<Rightarrow> Event list \<Rightarrow> System" where
  "run sys schedule = foldl systemStep sys schedule"

definition fetcherInvocations :: "System \<Rightarrow> nat" where
  "fetcherInvocations sys = sum_list (map (\<lambda>c. lockedFetches c + fallbackFetches c) (calls sys))"

definition notStarted :: "Call \<Rightarrow> bool" where
  "notStarted c = (pc c = ReadCache \<and> lockCycles c = 0 \<and> failedAttempts c = 0 \<and>
     lockedFetches c = 0 \<and> fallbackFetches c = 0)"

definition hasReturned :: "Call \<Rightarrow> bool" where
  "hasReturned c = (case pc c of Returned result \<Rightarrow> True | _ \<Rightarrow> False)"

definition callInvariant :: "Call \<Rightarrow> bool" where
  \<comment> \<open>What the counters are at each program point.\<close>
  "callInvariant c =
     (case pc c of
        ReadCache \<Rightarrow> lockCycles c = 0 \<and> failedAttempts c = 0 \<and> lockedFetches c = 0 \<and>
                     fallbackFetches c = 0
      | AcquireLock n \<Rightarrow> n < 5 \<and> lockCycles c = 0 \<and> failedAttempts c = n \<and>
                         lockedFetches c = 0 \<and> fallbackFetches c = 0
      | Sleeping n wakeAt \<Rightarrow> n < 5 \<and> lockCycles c = 0 \<and> failedAttempts c = n + 1 \<and>
                         lockedFetches c = 0 \<and> fallbackFetches c = 0
      | Recheck n \<Rightarrow> n < 5 \<and> lockCycles c = 0 \<and> failedAttempts c = n + 1 \<and>
                         lockedFetches c = 0 \<and> fallbackFetches c = 0
      | DoubleCheck \<Rightarrow> lockCycles c = 1 \<and> lockedFetches c = 0 \<and> fallbackFetches c = 0
      | Fetch \<Rightarrow> lockCycles c = 1 \<and> lockedFetches c = 0 \<and> fallbackFetches c = 0
      | SetMatches ms \<Rightarrow> lockCycles c = 1 \<and> lockedFetches c = 1 \<and> fallbackFetches c = 0
      | ReleaseLock ms \<Rightarrow> lockCycles c = 1 \<and> lockedFetches c \<le> 1 \<and> fallbackFetches c = 0
      | Fallback \<Rightarrow> lockCycles c = 0 \<and> failedAttempts c = 5 \<and> lockedFetches c = 0 \<and>
                    fallbackFetches c = 0
      | Returned ms \<Rightarrow>
          (lockCycles c = 1 \<and> lockedFetches c \<le> 1 \<and> fallbackFetches c = 0) \<or>
          (lockCycles c = 0 \<and> lockedFetches c = 0 \<and> fallbackFetches c = 0) \<or>
          (lockCycles c = 0 \<and> lockedFetches c = 0 \<and> fallbackFetches c = 1 \<and>
           failedAttempts c = 5))"

definition singleFlight :: "Call \<Rightarrow> bool" where
  \<comment> \<open>At most one fetch under the lock, and only after the call's own acquisition; at
      most one fetch in the fallback, and only after five failed acquisitions and no
      acquired lock; never both.\<close>
  "singleFlight c =
     (lockedFetches c \<le> lockCycles c \<and> lockCycles c \<le> 1 \<and> fallbackFetches c \<le> 1 \<and>
      (if fallbackFetches c = 1 then failedAttempts c = 5 \<and> lockCycles c = 0 else True) \<and>
      lockedFetches c + fallbackFetches c \<le> 1)"

definition pastFetch :: "Call \<Rightarrow> bool" where
  \<comment> \<open>The call holds a list: it stands after its fetch or after a cache hit.\<close>
  "pastFetch c = (case pc c of SetMatches ms \<Rightarrow> True | ReleaseLock ms \<Rightarrow> True
                             | Returned ms \<Rightarrow> True | _ \<Rightarrow> False)"

definition hasFetched :: "Call \<Rightarrow> bool" where
  "hasFetched c = (1 \<le> lockedFetches c + fallbackFetches c)"

definition fetchedBeforeUse :: "System \<Rightarrow> bool" where
  \<comment> \<open>Where a call holds a list, or the cache of a call's key is filled, some call has
      invoked its fetcher.\<close>
  "fetchedBeforeUse sys =
     (if (\<exists>c\<in>set (calls sys). pastFetch c \<or>
            getMatches (subject c) (world sys) (subjectId c) \<noteq> None)
      then (\<exists>c\<in>set (calls sys). hasFetched c) else True)"

subsection \<open>What the lock protects\<close>

text \<open>
  The calls for one key share two Redis entries: the cached list and the lock. A call is
  in its critical section from its successful \<open>SET ... NX\<close> to its release. The lease of
  a lock is \<open>LOCK_TTL\<close> seconds; the invariants below speak of runs that last less than
  one lease from the time \<open>c0\<close> of their start, so that no lock taken in the run runs
  out in it.
\<close>

definition lockEntry :: "Subject \<Rightarrow> string \<Rightarrow> World \<Rightarrow> (RedisValue \<times> timestamp) option" where
  \<comment> \<open>The raw entry under the lock key, live or not.\<close>
  "lockEntry s i w = redis w (keyPrefix @ ''lock:'' @ cacheKey s i)"

definition cacheEntry :: "Subject \<Rightarrow> string \<Rightarrow> World \<Rightarrow> (RedisValue \<times> timestamp) option" where
  \<comment> \<open>The raw entry under the cache key, live or not.\<close>
  "cacheEntry s i w = redis w (keyPrefix @ cacheKey s i)"

definition inCritical :: "Call \<Rightarrow> bool" where
  \<comment> \<open>Between \<open>lockAcquired\<close> and the end of the \<open>finally\<close> block.\<close>
  "inCritical c = (case pc c of DoubleCheck \<Rightarrow> True | Fetch \<Rightarrow> True | SetMatches ms \<Rightarrow> True
                              | ReleaseLock ms \<Rightarrow> True | _ \<Rightarrow> False)"

definition heldList :: "Call \<Rightarrow> CachedMatchScore list option" where
  \<comment> \<open>The list the call is about to store or return, or has returned.\<close>
  "heldList c = (case pc c of SetMatches ms \<Rightarrow> Some ms | ReleaseLock ms \<Rightarrow> Some ms
                            | Returned ms \<Rightarrow> Some ms | _ \<Rightarrow> None)"

definition forgetStamps :: "CachedMatchScore list \<Rightarrow> CachedMatchScore list" where
  \<comment> \<open>Lists are compared up to \<open>cachedAt\<close>, which every write renews.\<close>
  "forgetStamps ms = map (\<lambda>m. m \<lparr> cachedAt := 0 \<rparr>) ms"

definition cacheReady :: "CachedMatchScore list \<Rightarrow> bool" where
  \<comment> \<open>What the service's fetchers return when they find something: at most 50 rows,
      ordered by descending total score; \<open>writeMatches\<close> stores such a list as it is,
      restamped.\<close>
  "cacheReady ms = (ms \<noteq> [] \<and> length ms \<le> CACHE_LIMIT \<and> sorted (map (\<lambda>m. - totalScore m) ms))"

definition elapsed :: "Event list \<Rightarrow> nat" where
  \<comment> \<open>The milliseconds that pass in a schedule.\<close>
  "elapsed schedule = sum_list (map (\<lambda>e. case e of Tick d \<Rightarrow> d | Run i \<Rightarrow> 0) schedule)"

definition lockedFetchCount :: "System \<Rightarrow> nat" where
  "lockedFetchCount sys = sum_list (map lockedFetches (calls sys))"

definition fallbackFetchCount :: "System \<Rightarrow> nat" where
  "fallbackFetchCount sys = sum_list (map fallbackFetches (calls sys))"

definition mutexInv :: "Subject \<Rightarrow> string \<Rightarrow> timestamp \<Rightarrow> System \<Rightarrow> bool" where
  \<comment> \<open>All calls are for the key of \<open>s\<close> and \<open>i\<close>; less than a lease has passed since \<open>c0\<close>;
      at most one call is in its critical section, and the lock entry then holds that
      call's token with a lease that has not run out.\<close>
  "mutexInv s i c0 sys =
     (c0 \<le> clock (world sys) \<and> clock (world sys) < c0 + 10000 \<and>
      (\<forall>k<length (calls sys). subject (calls sys ! k) = s \<and> subjectId (calls sys ! k) = i) \<and>
      (\<forall>j<length (calls sys). \<forall>k<length (calls sys).
          inCritical (calls sys ! j) \<and> inCritical (calls sys ! k) \<longrightarrow> j = k) \<and>
      (\<forall>k<length (calls sys). inCritical (calls sys ! k) \<longrightarrow>
          (\<exists>exp. lockEntry s i (world sys) = Some (RString (lockOwner (calls sys ! k)), exp) \<and>
                 c0 + 10000 \<le> exp)))"

definition filled :: "Subject \<Rightarrow> string \<Rightarrow> timestamp \<Rightarrow> World \<Rightarrow> bool" where
  \<comment> \<open>The cache entry holds a list that stays live for the whole run.\<close>
  "filled s i c0 w = (case cacheEntry s i w of
                        Some (RJson l, expiresAt) \<Rightarrow> c0 + 10000 \<le> expiresAt
                      | _ \<Rightarrow> False)"

definition fetchInv :: "Subject \<Rightarrow> string \<Rightarrow> timestamp \<Rightarrow> System \<Rightarrow> bool" where
  \<comment> \<open>Fetchers never return an empty list; the cache entry is live or reads as missing; a
      call about to fetch sees a missing entry and no fetch under the lock so far; after
      a fetch under the lock the entry is filled or about to be; one such fetch at most.\<close>
  "fetchInv s i c0 sys =
     ((\<forall>k<length (calls sys). \<forall>w. fetcher (calls sys ! k) w \<noteq> []) \<and>
      (filled s i c0 (world sys) \<or> readMatches (world sys) (cacheKey s i) = None) \<and>
      (\<forall>k<length (calls sys). pc (calls sys ! k) = Fetch \<longrightarrow>
          readMatches (world sys) (cacheKey s i) = None \<and> lockedFetchCount sys = 0) \<and>
      (\<forall>k<length (calls sys). \<forall>ms. pc (calls sys ! k) = SetMatches ms \<longrightarrow> ms \<noteq> []) \<and>
      (1 \<le> lockedFetchCount sys \<longrightarrow>
          filled s i c0 (world sys) \<or>
          (\<exists>k<length (calls sys). \<exists>ms. pc (calls sys ! k) = SetMatches ms)) \<and>
      lockedFetchCount sys \<le> 1)"

definition inPlay :: "Subject \<Rightarrow> string \<Rightarrow> System \<Rightarrow> CachedMatchScore list \<Rightarrow> bool" where
  \<comment> \<open>A list that is cached, or held by a call that did not fall back.\<close>
  "inPlay s i sys l =
     (readMatches (world sys) (cacheKey s i) = Some l \<or>
      (\<exists>k<length (calls sys). heldList (calls sys ! k) = Some l \<and>
                               fallbackFetches (calls sys ! k) = 0))"

definition originInv :: "Subject \<Rightarrow> string \<Rightarrow> System \<Rightarrow> bool" where
  \<comment> \<open>A list in play comes from a fetch under the lock.\<close>
  "originInv s i sys = ((\<exists>l. inPlay s i sys l) \<longrightarrow> 1 \<le> lockedFetchCount sys)"

definition agreeInv :: "Subject \<Rightarrow> string \<Rightarrow> System \<Rightarrow> bool" where
  \<comment> \<open>All lists in play are the same list up to \<open>cachedAt\<close>.\<close>
  "agreeInv s i sys =
     ((\<forall>k<length (calls sys). \<forall>w. cacheReady (fetcher (calls sys ! k) w)) \<and>
      (\<forall>k<length (calls sys). \<forall>ms. pc (calls sys ! k) = SetMatches ms \<longrightarrow> cacheReady ms) \<and>
      (\<forall>a b. inPlay s i sys a \<and> inPlay s i sys b \<longrightarrow> forgetStamps a = forgetStamps b))"

section \<open>Ranges\<close>

text \<open>
  The vacancy DTOs constrain the experience bounds and the salaries with \<open>@Min(0)\<close>.
\<close>

definition nonNegative :: "int option \<Rightarrow> bool" where
  "nonNegative x = (case x of None \<Rightarrow> True | Some n \<Rightarrow> 0 \<le> n)"

definition nonNegativeDecimal :: "rat option \<Rightarrow> bool" where
  "nonNegativeDecimal x = (case x of None \<Rightarrow> True | Some n \<Rightarrow> 0 \<le> n)"

definition validVacancy :: "Vacancy \<Rightarrow> bool" where
  "validVacancy v = (nonNegative (experienceMinYears v) \<and> nonNegative (experienceMaxYears v) \<and>
     nonNegativeDecimal (salaryMin v) \<and> nonNegativeDecimal (salaryMax v))"

definition inRange :: "rat \<Rightarrow> bool" where
  "inRange x = (0 \<le> x \<and> x \<le> 100)"

definition allInRange :: "ScoreComponents \<Rightarrow> bool" where
  "allInRange s = (inRange (skillScore s) \<and> inRange (experienceScore s) \<and>
     inRange (educationScore s) \<and> inRange (locationScore s) \<and> inRange (salaryScore s) \<and>
     inRange (totalScore s))"

section \<open>Concrete inputs\<close>

definition plainVacancy :: Vacancy where
  \<comment> \<open>An open vacancy that declares no requirement at all.\<close>
  "plainVacancy = \<lparr> v_id = ''v1'', v_status = ''OPEN'', v_deletedAt = None, v_publishedAt = 0,
     experienceMinYears = None, experienceMaxYears = None, educationMinLevel = None,
     locationCity = None, locationState = None, isRemote = False,
     salaryMin = None, salaryMax = None, salaryIsNegotiable = False \<rparr>"

definition salariedVacancy :: Vacancy where
  "salariedVacancy = plainVacancy \<lparr> salaryMin := Some 1000, salaryMax := Some 2000 \<rparr>"

definition sqlSkill :: WorkerSkill where
  "sqlSkill = \<lparr> ws_userId = ''w1'', ws_skillCode = ''SQL'', ws_deletedAt = None \<rparr>"

definition sqlRequired :: VacancySkill where
  "sqlRequired = \<lparr> vs_vacancyId = ''v1'', vs_skillCode = ''SQL'', vs_isRequired = True,
     vs_deletedAt = None \<rparr>"

definition workerNo :: "nat \<Rightarrow> WorkerProfile" where
  "workerNo n = \<lparr> wp_userId = replicate (Suc n) CHR ''w'', wp_status = ''ACTIVE'', wp_deletedAt = None,
     wp_createdAt = n, wp_city = None, wp_state = None \<rparr>"

definition scenarioD :: World where
  "scenarioD = \<lparr> vacancy_table = [plainVacancy], workerProfile_table = map workerNo [0..<450],
     workerSkill_table = [], workerEducation_table = [], workerExperience_table = [],
     vacancySkill_table = [], matchScore_table = Map.empty, securityEvent_table = [],
     redis = Map.empty, clock = 0, calendarYear = 2026 \<rparr>"

definition smallWorld :: World where
  \<comment> \<open>One open vacancy, no worker, nothing cached and no lock.\<close>
  "smallWorld = \<lparr> vacancy_table = [plainVacancy], workerProfile_table = [],
     workerSkill_table = [], workerEducation_table = [], workerExperience_table = [],
     vacancySkill_table = [], matchScore_table = Map.empty, securityEvent_table = [],
     redis = Map.empty, clock = 0, calendarYear = 2026 \<rparr>"

definition cachedScore :: "string \<Rightarrow> string \<Rightarrow> rat \<Rightarrow> CachedMatchScore" where
  "cachedScore wid vid score =
     \<lparr> skillScore = 0, experienceScore = 0, educationScore = 0, locationScore = 0,
       salaryScore = 0, totalScore = score, skillMatchCount = 0, skillRequiredCount = 0,
       isRecommended = False, sr_workerId = wid, sr_vacancyId = vid, cachedAt = 0 \<rparr>"

definition twoScores :: "CachedMatchScore list" where
  "twoScores = [cachedScore ''w1'' ''v1'' 10, cachedScore ''w1'' ''v2'' 90]"

definition reacquired :: World where
  \<comment> \<open>Owner A takes the lock at time 0; its lease of 10 seconds runs out; owner B takes
      the lock at 10001 ms.\<close>
  "reacquired =
     snd (acquireLock (snd (acquireLock smallWorld ''worker:w1'' ''A'') \<lparr> clock := 10001 \<rparr>)
            ''worker:w1'' ''B'')"

definition workerSkillOf :: "string \<Rightarrow> WorkerSkill" where
  "workerSkillOf code = \<lparr> ws_userId = ''w1'', ws_skillCode = code, ws_deletedAt = None \<rparr>"

definition vacancySkillOf :: "string \<Rightarrow> bool \<Rightarrow> VacancySkill" where
  "vacancySkillOf code required =
     \<lparr> vs_vacancyId = ''v1'', vs_skillCode = code, vs_isRequired = required, vs_deletedAt = None \<rparr>"

definition yearsFromTo :: "int \<Rightarrow> int \<Rightarrow> WorkerExperience" where
  "yearsFromTo a b = \<lparr> wx_userId = ''w1'', wx_startYear = Some a, wx_endYear = Some b,
     wx_deletedAt = None \<rparr>"

definition seniorVacancy :: Vacancy where
  "seniorVacancy = salariedVacancy \<lparr> experienceMinYears := Some 1 \<rparr>"

text \<open>
  Two concurrent \<open>getOrSetVacancyCache('v1', ...)\<close> calls by owners A and B over an empty
  cache and an empty lock store, with a fetcher that finds nothing, and with one that
  stamps what it finds with the time of the fetch, as \<open>toCachedMatchScore\<close> does.
\<close>

definition emptyFetcher :: "World \<Rightarrow> CachedMatchScore list" where
  "emptyFetcher w = []"

definition stampingFetcher :: "World \<Rightarrow> CachedMatchScore list" where
  "stampingFetcher w = [(cachedScore ''w1'' ''v1'' 80) \<lparr> cachedAt := clock w \<rparr>]"

definition twoCalls :: "(World \<Rightarrow> CachedMatchScore list) \<Rightarrow> System" where
  "twoCalls f = \<lparr> world = smallWorld,
      calls = [getOrSetCache VacancySubject ''v1'' ''A'' f,
               getOrSetCache VacancySubject ''v1'' ''B'' f] \<rparr>"

definition refetchSchedule :: "Event list" where
  \<comment> \<open>A and B miss; A takes the lock, B fails and sleeps; A double-checks, fetches, stores
      (nothing, the list is empty), releases and returns; 50 ms later B wakes, misses
      again, takes the lock, double-checks, fetches, stores, releases and returns.\<close>
  "refetchSchedule =
     [Run 0, Run 1, Run 0, Run 1, Run 0, Run 0, Run 0, Run 0, Tick 50,
      Run 1, Run 1, Run 1, Run 1, Run 1, Run 1, Run 1]"

definition cachedCopySchedule :: "Event list" where
  \<comment> \<open>A and B miss; A takes the lock, B fails and sleeps; A double-checks and fetches;
      1 ms later A stores, releases and returns; B wakes after its 50 ms and finds the
      cached copy.\<close>
  "cachedCopySchedule =
     [Run 0, Run 1, Run 0, Run 1, Run 0, Run 0, Tick 1, Run 0, Run 0, Tick 49, Run 1, Run 1]"

section \<open>Rounding and the salary midpoint\<close>

lemma distance_over_deviation: "0 < m \<Longrightarrow> \<bar>0 - m\<bar> / ((1 / 2) * m) = (2::rat)"
  by (simp add: field_simps)

lemma Math_round_minus_10000: "Math_round (- 10000) = - 10000"
  by code_simp

section \<open>The specification's scenarios A and B\<close>

text \<open>
  Scenario A: the vacancy requires SQL and PYTHON, the worker has SQL; the skill score is
  50 on both paths. Scenario B: the vacancy asks for 5 years, the worker has 2; the
  single-pair experience score is \<open>100 - 100 * (3 / 5) = 40\<close>, and the batch path, with
  its penalty of 10 points per missing year, gives 70.
\<close>

lemma scenario_A:
  "MatchingService_calculateSkillScore [workerSkillOf ''SQL'']
     [vacancySkillOf ''SQL'' True, vacancySkillOf ''PYTHON'' True]
     [vacancySkillOf ''SQL'' True, vacancySkillOf ''PYTHON'' True] = 50 \<and>
   MatchingRepository_calculateSkillScore [workerSkillOf ''SQL'']
     [vacancySkillOf ''SQL'' True, vacancySkillOf ''PYTHON'' True] = 50"
  by code_simp

lemma scenario_B:
  "MatchingService_calculateExperienceScore 2026 [yearsFromTo 2020 2022]
     (plainVacancy \<lparr> experienceMinYears := Some 5 \<rparr>) = 40 \<and>
   MatchingRepository_calculateExperienceScore 2026 [yearsFromTo 2020 2022]
     (plainVacancy \<lparr> experienceMinYears := Some 5 \<rparr>) = 70"
  by code_simp

section \<open>The weighted total (C1)\<close>


section \<open>Score ranges (C2)\<close>

text \<open>
  What holds of the ranges: on the single-pair path every sub-score and the total lie
  in \<open>[0, 100]\<close> for a vacancy whose bounds and salaries are not negative; on the batch
  path they do when the worker's skill codes are pairwise distinct.
\<close>

lemma Math_round_mono: "x \<le> y \<Longrightarrow> Math_round x \<le> Math_round y"
  by (simp add: Math_round_def floor_mono)

lemma Math_round_of_int: "Math_round (of_int n) = n"
  unfolding Math_round_def by linarith

lemma hundredths_inRange:
  assumes "inRange x"
  shows "inRange (of_int (Math_round (x * 100)) / 100)"
proof -
  have "Math_round (of_int 0) \<le> Math_round (x * 100)"
    using assms by (intro Math_round_mono) (simp add: inRange_def)
  moreover have "Math_round (x * 100) \<le> Math_round (of_int 10000)"
    using assms by (intro Math_round_mono) (simp add: inRange_def)
  ultimately have "0 \<le> Math_round (x * 100)" "Math_round (x * 100) \<le> 10000"
    by (simp_all only: Math_round_of_int)
  then show ?thesis by (simp add: inRange_def)
qed

lemma service_skill_inRange:
  "inRange (MatchingService_calculateSkillScore ws vs rs)"
proof -
  have "inRange (min (of_nat (length (filter (hasSkillCode vs) ws)) / of_nat (length rs)) 1 * 100)"
    by (simp add: inRange_def min_def)
  from hundredths_inRange [OF this] show ?thesis
    by (simp add: MatchingService_calculateSkillScore_def Let_def inRange_def)
qed

lemma service_experience_inRange:
  assumes "nonNegative (experienceMinYears v)" and "nonNegative (experienceMaxYears v)"
  shows "inRange (MatchingService_calculateExperienceScore cy wx v)"
proof -
  let ?mn = "orElse (experienceMinYears v) 0"
  let ?mx = "orElse (experienceMaxYears v) (?mn + 10)"
  have mn: "0 \<le> ?mn" using assms(1) by (auto simp: orElse_def nonNegative_def split: option.splits)
  have mx: "0 < ?mx" using assms(2) mn by (auto simp: orElse_def nonNegative_def split: option.splits)
  have a: "inRange (max 0 (100 - (of_int d / of_int m) * 100))" if "0 < d" "0 < m" for d m :: int
    using that by (simp add: inRange_def)
  show ?thesis
    unfolding MatchingService_calculateExperienceScore_def Let_def
    using mn mx a by (auto simp: inRange_def)
qed

lemma indexFrom_range: "indexFrom i xs x = -1 \<or> i \<le> indexFrom i xs x"
proof (induction xs arbitrary: i)
  case Nil
  then show ?case by simp
next
  case (Cons y ys)
  from Cons [of "i + 1"] show ?case by auto
qed

lemma education_inRange: "inRange (calculateEducationScore we v)"
proof -
  have "indexOf educationLevels x = -1 \<or> 0 \<le> indexOf educationLevels x" for x
    using indexFrom_range [of 0 educationLevels] by (auto simp: indexOf_def split: option.splits)
  then show ?thesis
    unfolding calculateEducationScore_def Let_def by (auto simp: inRange_def)
qed

lemma location_inRange: "inRange (calculateLocationScore wp v)"
  by (simp add: calculateLocationScore_def inRange_def split: option.splits)

lemma service_salary_inRange:
  assumes "nonNegativeDecimal (salaryMin v)" and "nonNegativeDecimal (salaryMax v)"
  shows "inRange (MatchingService_calculateSalaryScore wp v)"
proof -
  let ?mn = "toNumberOr (salaryMin v) 0"
  let ?mx = "toNumberOr (salaryMax v) (?mn * 2)"
  have mn: "0 \<le> ?mn" using assms(1) by (auto simp: toNumberOr_def nonNegativeDecimal_def split: option.splits)
  have mx: "0 \<le> ?mx" using assms(2) mn by (auto simp: toNumberOr_def nonNegativeDecimal_def split: option.splits)
  show ?thesis
  proof (cases "0 < (?mn + ?mx) / 2")
    case True
    then have "\<bar>0 - (?mn + ?mx) / 2\<bar> / ((1 / 2) * ((?mn + ?mx) / 2)) = 2"
      by (rule distance_over_deviation)
    then show ?thesis
      unfolding MatchingService_calculateSalaryScore_def Let_def
      by (simp add: inRange_def Math_round_minus_10000)
  next
    case False
    then have "?mn = 0" "?mx = 0" using mn mx by auto
    then show ?thesis
      unfolding MatchingService_calculateSalaryScore_def Let_def
      by (simp add: inRange_def)
  qed
qed

lemma weighted_inRange:
  assumes "inRange a" "inRange b" "inRange c" "inRange d" "inRange e"
  shows "inRange (of_int (Math_round ((a * (40 / 100) + b * (25 / 100) + c * (15 / 100) +
            d * (10 / 100) + e * (10 / 100)) * 100)) / 100)"
  using assms by (intro hundredths_inRange) (simp add: inRange_def)

lemma single_pair_scores_in_range:
  assumes "validVacancy v"
  shows "allInRange (computeScore cy ws we wx vs v wp)"
proof -
  let ?s = "computeScore cy ws we wx vs v wp"
  have t: "totalScore ?s = of_int (Math_round ((skillScore ?s * (40 / 100) +
      experienceScore ?s * (25 / 100) + educationScore ?s * (15 / 100) +
      locationScore ?s * (10 / 100) + salaryScore ?s * (10 / 100)) * 100)) / 100"
    by (simp add: computeScore_def Let_def)
  have 1: "inRange (skillScore ?s)"
    by (simp add: computeScore_def Let_def service_skill_inRange)
  have 2: "inRange (experienceScore ?s)"
    using assms by (simp add: computeScore_def Let_def validVacancy_def service_experience_inRange)
  have 3: "inRange (educationScore ?s)"
    by (simp add: computeScore_def Let_def education_inRange)
  have 4: "inRange (locationScore ?s)"
    by (simp add: computeScore_def Let_def location_inRange)
  have 5: "inRange (salaryScore ?s)"
    using assms by (simp add: computeScore_def Let_def validVacancy_def service_salary_inRange)
  have 6: "inRange (totalScore ?s)"
    unfolding t using 1 2 3 4 5 by (rule weighted_inRange)
  show ?thesis unfolding allInRange_def using 1 2 3 4 5 6 by blast
qed

lemma matched_le_vacancy_skills:
  assumes "distinct (map ws_skillCode ws)"
  shows "length (filter (hasSkillCode vs) ws) \<le> length vs"
proof -
  let ?m = "filter (hasSkillCode vs) ws"
  have d: "distinct (map ws_skillCode ?m)" using assms by (simp add: distinct_map_filter)
  have "set (map ws_skillCode ?m) \<subseteq> set (map vs_skillCode vs)"
    by (auto simp: hasSkillCode_def list_ex_iff) (metis imageI)
  then have "card (set (map ws_skillCode ?m)) \<le> card (set (map vs_skillCode vs))"
    by (intro card_mono) simp_all
  also have "\<dots> \<le> length (map vs_skillCode vs)" by (rule card_length)
  finally show ?thesis using distinct_card [OF d] by simp
qed

lemma repository_skill_inRange:
  assumes "distinct (map ws_skillCode ws)"
  shows "inRange (MatchingRepository_calculateSkillScore ws vs)"
proof (cases "length vs = 0")
  case True
  then show ?thesis by (simp add: MatchingRepository_calculateSkillScore_def inRange_def)
next
  case False
  have "(of_nat (length (filter (hasSkillCode vs) ws)) :: rat) \<le> of_nat (length vs)"
    using matched_le_vacancy_skills [OF assms, of vs] by (simp only: of_nat_le_iff)
  then have "inRange (of_nat (length (filter (hasSkillCode vs) ws)) / of_nat (length vs) * 100)"
    using False by (simp add: inRange_def field_simps)
  from hundredths_inRange [OF this] show ?thesis
    using False by (simp add: MatchingRepository_calculateSkillScore_def Let_def)
qed

lemma repository_experience_inRange:
  "inRange (MatchingRepository_calculateExperienceScore cy wx v)"
  by (simp add: MatchingRepository_calculateExperienceScore_def Let_def inRange_def)

lemma repository_salary_inRange:
  "inRange (MatchingRepository_calculateSalaryScore wp v)"
  by (simp add: MatchingRepository_calculateSalaryScore_def Let_def inRange_def)

lemma batch_scores_in_range:
  assumes "distinct (map ws_skillCode ws)"
  shows "allInRange (calculateScoreComponents cy ws we wx vs v wp)"
proof -
  let ?s = "calculateScoreComponents cy ws we wx vs v wp"
  have t: "totalScore ?s = of_int (Math_round ((skillScore ?s * (40 / 100) +
      experienceScore ?s * (25 / 100) + educationScore ?s * (15 / 100) +
      locationScore ?s * (10 / 100) + salaryScore ?s * (10 / 100)) * 100)) / 100"
    by (simp add: calculateScoreComponents_def Let_def)
  have 1: "inRange (skillScore ?s)"
    using assms by (simp add: calculateScoreComponents_def Let_def repository_skill_inRange)
  have 2: "inRange (experienceScore ?s)"
    by (simp add: calculateScoreComponents_def Let_def repository_experience_inRange)
  have 3: "inRange (educationScore ?s)"
    by (simp add: calculateScoreComponents_def Let_def education_inRange)
  have 4: "inRange (locationScore ?s)"
    by (simp add: calculateScoreComponents_def Let_def location_inRange)
  have 5: "inRange (salaryScore ?s)"
    by (simp add: calculateScoreComponents_def Let_def repository_salary_inRange)
  have 6: "inRange (totalScore ?s)"
    unfolding t using 1 2 3 4 5 by (rule weighted_inRange)
  show ?thesis unfolding allInRange_def using 1 2 3 4 5 6 by blast
qed

text \<open>
  C2 does not hold on the batch path. A worker who lists the same skill twice is matched twice
  against a vacancy with that one skill: the batch skill score is 200 and the total 110,
  both above 100. The single-pair path caps the ratio with \<open>Math.min(matchRatio, 1)\<close>;
  the batch path has no cap.
\<close>

theorem batch_skill_score_exceeds_100:
  "MatchingRepository_calculateSkillScore [sqlSkill, sqlSkill] [sqlRequired] = 200 \<and>
   totalScore (calculateScoreComponents 2026 [sqlSkill, sqlSkill] [] [] [sqlRequired] plainVacancy None)
     = 110"
  by code_simp


lemma single_pair_skill_score_capped:
  "MatchingService_calculateSkillScore [sqlSkill, sqlSkill] [sqlRequired] [sqlRequired] = 100"
  by code_simp

section \<open>The neutral experience score (C3)\<close>

text \<open>
  On the single-pair path the neutral score of the specification is not what the code
  returns: a vacancy without experience bounds and a worker without experience records
  score 100 there, not 50.
\<close>

theorem single_pair_experience_not_neutral:
  "experienceMinYears plainVacancy = None \<and> experienceMaxYears plainVacancy = None \<and>
   MatchingService_calculateExperienceScore 2026 [] plainVacancy \<noteq> 50"
  by (simp add: plainVacancy_def MatchingService_calculateExperienceScore_def orElse_def
      totalYearsOf_def)

text \<open>
  C3 (amended). When the vacancy declares neither a minimum nor a maximum experience
  requirement, the batch path returns 50 for every worker experience list. The single-pair
  path instead falls back to the window of 0 to 10 years: it returns 100 when the worker's
  total years lie in that window, loses 10 points per year above 10 (never going below 0),
  and returns 0 for a negative total.
\<close>

theorem experience_score_without_bounds:
  assumes "experienceMinYears v = None" and "experienceMaxYears v = None"
  shows "MatchingRepository_calculateExperienceScore cy wx v = 50 \<and>
         MatchingService_calculateExperienceScore cy wx v =
           (let t = totalYearsOf cy wx in
            if 0 \<le> t \<and> t \<le> 10 then 100
            else if t < 0 then 0
            else max 0 (100 - 10 * of_int (t - 10)))"
  using assms
  by (simp add: MatchingRepository_calculateExperienceScore_def
      MatchingService_calculateExperienceScore_def truthy_def orElse_def Let_def algebra_simps)

theorem experience_score_without_bounds_witness:
  "experienceMinYears plainVacancy = None \<and> experienceMaxYears plainVacancy = None \<and>
   MatchingRepository_calculateExperienceScore 2026 [] plainVacancy = 50 \<and>
   MatchingService_calculateExperienceScore 2026 [] plainVacancy = 100"
  using experience_score_without_bounds [of plainVacancy 2026 "[]"]
  by (simp add: plainVacancy_def totalYearsOf_def)

section \<open>The recommendation flag (C4)\<close>


text \<open>
  The two policies are distinct: on one and the same input, with a total of 77.5 on both
  paths, the single-pair path recommends the match and the batch path does not, since the
  worker has none of the required skills.
\<close>

lemma policies_differ:
  "totalScore (computeScore 2026 (map workerSkillOf [''A'', ''B'', ''C'', ''D'']) []
      [yearsFromTo 2020 2025]
      (vacancySkillOf ''PY'' True # map (\<lambda>c. vacancySkillOf c False) [''A'', ''B'', ''C'', ''D''])
      seniorVacancy None) = 155 / 2 \<and>
   isRecommended (computeScore 2026 (map workerSkillOf [''A'', ''B'', ''C'', ''D'']) []
      [yearsFromTo 2020 2025]
      (vacancySkillOf ''PY'' True # map (\<lambda>c. vacancySkillOf c False) [''A'', ''B'', ''C'', ''D''])
      seniorVacancy None) \<and>
   totalScore (calculateScoreComponents 2026 (map workerSkillOf [''A'', ''B'', ''C'', ''D'']) []
      [yearsFromTo 2020 2025]
      (vacancySkillOf ''PY'' True # map (\<lambda>c. vacancySkillOf c False) [''A'', ''B'', ''C'', ''D''])
      seniorVacancy None) = 155 / 2 \<and>
   \<not> isRecommended (calculateScoreComponents 2026 (map workerSkillOf [''A'', ''B'', ''C'', ''D'']) []
      [yearsFromTo 2020 2025]
      (vacancySkillOf ''PY'' True # map (\<lambda>c. vacancySkillOf c False) [''A'', ''B'', ''C'', ''D''])
      seniorVacancy None)"
  by code_simp

section \<open>Cache writes are truncated and sorted (C5)\<close>

lemma writeMatches_empty: "writeMatches w key [] = w"
  by (simp add: writeMatches_def)

lemma sorted_desc_sort_key:
  "sorted_wrt (\<lambda>a b. totalScore b \<le> totalScore a) (sort_key (\<lambda>m. - totalScore m) (ms :: CachedMatchScore list))"
proof -
  have "sorted (map (\<lambda>m. - totalScore m) (sort_key (\<lambda>m. - totalScore m) ms))"
    by (rule sorted_sort_key)
  then show ?thesis
    by (simp add: sorted_map)
qed

lemma sorted_desc_restamp:
  "sorted_wrt (\<lambda>a b. totalScore b \<le> totalScore a) (ms :: CachedMatchScore list) \<Longrightarrow>
   sorted_wrt (\<lambda>a b. totalScore b \<le> totalScore a) (map (\<lambda>m. m \<lparr> cachedAt := t \<rparr>) (take n ms))"
  by (simp add: sorted_wrt_map sorted_wrt_take)

lemma writeMatches_stored:
  assumes "matches \<noteq> []"
  shows "\<exists>l. redis (writeMatches w key matches) (keyPrefix @ key) = Some (RJson l, clock w + 600000)
     \<and> readMatches (writeMatches w key matches) key = Some l
     \<and> length l = min 50 (length matches) \<and> length l \<le> 50
     \<and> sorted_wrt (\<lambda>a b. totalScore b \<le> totalScore a) l"
  using assms
  by (simp add: writeMatches_def Let_def redis_setex_def readMatches_def redis_get_def
      CACHE_LIMIT_def CACHE_TTL_def sorted_desc_restamp sorted_desc_sort_key)

text \<open>
  C5. \<open>setWorkerMatches\<close> and \<open>setVacancyMatches\<close> write nothing for an empty list;
  for every other list they store, under the subject's key and with a lease of 600 seconds,
  a list of at most 50 entries that is sorted by descending total score.
\<close>

theorem cache_write_truncated_and_sorted:
  "(matches = [] \<longrightarrow> setWorkerMatches w workerId matches = w \<and> setVacancyMatches w vacancyId matches = w)
   \<and> (matches \<noteq> [] \<longrightarrow>
        (\<exists>l. redis (setWorkerMatches w workerId matches) (keyPrefix @ ''worker:'' @ workerId)
                = Some (RJson l, clock w + 600000)
             \<and> getWorkerMatches (setWorkerMatches w workerId matches) workerId = Some l
             \<and> length l \<le> 50
             \<and> sorted_wrt (\<lambda>a b. totalScore b \<le> totalScore a) l)
      \<and> (\<exists>l. redis (setVacancyMatches w vacancyId matches) (keyPrefix @ ''vacancy:'' @ vacancyId)
                = Some (RJson l, clock w + 600000)
             \<and> getVacancyMatches (setVacancyMatches w vacancyId matches) vacancyId = Some l
             \<and> length l \<le> 50
             \<and> sorted_wrt (\<lambda>a b. totalScore b \<le> totalScore a) l))"
proof (intro conjI impI)
  assume "matches = []"
  then show "setWorkerMatches w workerId matches = w" "setVacancyMatches w vacancyId matches = w"
    by (simp_all add: setWorkerMatches_def setVacancyMatches_def writeMatches_empty)
next
  assume ne: "matches \<noteq> []"
  from writeMatches_stored [OF ne, of w "''worker:'' @ workerId"]
  show "\<exists>l. redis (setWorkerMatches w workerId matches) (keyPrefix @ ''worker:'' @ workerId)
                = Some (RJson l, clock w + 600000)
             \<and> getWorkerMatches (setWorkerMatches w workerId matches) workerId = Some l
             \<and> length l \<le> 50
             \<and> sorted_wrt (\<lambda>a b. totalScore b \<le> totalScore a) l"
    unfolding setWorkerMatches_def getWorkerMatches_def by blast
  from writeMatches_stored [OF ne, of w "''vacancy:'' @ vacancyId"]
  show "\<exists>l. redis (setVacancyMatches w vacancyId matches) (keyPrefix @ ''vacancy:'' @ vacancyId)
                = Some (RJson l, clock w + 600000)
             \<and> getVacancyMatches (setVacancyMatches w vacancyId matches) vacancyId = Some l
             \<and> length l \<le> 50
             \<and> sorted_wrt (\<lambda>a b. totalScore b \<le> totalScore a) l"
    unfolding setVacancyMatches_def getVacancyMatches_def by blast
qed

lemma twoScores_stored:
  "map_option (map totalScore) (getWorkerMatches (setWorkerMatches smallWorld ''w1'' twoScores) ''w1'')
     = Some [90, 10]"
  by (simp add: getWorkerMatches_def setWorkerMatches_def writeMatches_def readMatches_def
      redis_get_def redis_setex_def smallWorld_def twoScores_def cachedScore_def
      CACHE_LIMIT_def CACHE_TTL_def Let_def)

theorem cache_write_truncated_and_sorted_witness:
  "setWorkerMatches smallWorld ''w1'' [] = smallWorld \<and>
   setVacancyMatches smallWorld ''v1'' [] = smallWorld \<and>
   (\<exists>l. getWorkerMatches (setWorkerMatches smallWorld ''w1'' twoScores) ''w1'' = Some l
        \<and> length l \<le> 50 \<and> sorted_wrt (\<lambda>a b. totalScore b \<le> totalScore a) l) \<and>
   (\<exists>l. getVacancyMatches (setVacancyMatches smallWorld ''v1'' twoScores) ''v1'' = Some l
        \<and> length l \<le> 50 \<and> sorted_wrt (\<lambda>a b. totalScore b \<le> totalScore a) l)"
proof -
  have ne: "twoScores \<noteq> []" by (simp add: twoScores_def)
  show ?thesis
    using cache_write_truncated_and_sorted [of "[]" smallWorld "''w1''" "''v1''"]
      cache_write_truncated_and_sorted [of twoScores smallWorld "''w1''" "''v1''"] ne
    by blast
qed

section \<open>Releasing a lock (C6)\<close>

text \<open>
  C6. \<open>releaseLock\<close> deletes the lock entry of the key when the live entry holds the
  releaser's token, and then changes nothing else; when the entry holds another token,
  or there is no live entry, it leaves the whole state unchanged. So a lock that another
  owner acquired after the lease ran out survives the old owner's release.
\<close>

theorem release_lock_compare_and_delete:
  "(redis_get w (''lock:'' @ key) = Some (RString owner) \<longrightarrow>
      releaseLock w key owner = redis_del w (''lock:'' @ key) \<and>
      redis_get (releaseLock w key owner) (''lock:'' @ key) = None)
   \<and> (redis_get w (''lock:'' @ key) \<noteq> Some (RString owner) \<longrightarrow>
      releaseLock w key owner = w)"
  by (simp add: releaseLock_def Let_def redis_del_def redis_get_def)

lemma reacquired_holder: "redis_get reacquired ''lock:worker:w1'' = Some (RString ''B'')"
  by (simp add: reacquired_def acquireLock_def redis_set_ex_nx_def redis_get_def redis_setex_def
      smallWorld_def LOCK_TTL_def keyPrefix_def)

lemma first_lease: "fst (acquireLock smallWorld ''worker:w1'' ''A'')"
  by (simp add: acquireLock_def redis_set_ex_nx_def redis_get_def smallWorld_def)

lemma held_lock_refuses:
  "\<not> fst (acquireLock (snd (acquireLock smallWorld ''worker:w1'' ''A'')) ''worker:w1'' ''B'')"
  by (simp add: acquireLock_def redis_set_ex_nx_def redis_get_def redis_setex_def
      smallWorld_def LOCK_TTL_def keyPrefix_def)

theorem release_lock_compare_and_delete_witness:
  "redis_get reacquired ''lock:worker:w1'' = Some (RString ''B'') \<and>
   releaseLock reacquired ''worker:w1'' ''A'' = reacquired \<and>
   redis_get (releaseLock reacquired ''worker:w1'' ''A'') ''lock:worker:w1'' = Some (RString ''B'') \<and>
   redis_get (releaseLock reacquired ''worker:w1'' ''B'') ''lock:worker:w1'' = None"
  using release_lock_compare_and_delete [of reacquired "''worker:w1''" "''A''"] release_lock_compare_and_delete [of reacquired "''worker:w1''" "''B''"]
    reacquired_holder
  by (simp add: redis_del_def redis_get_def)

section \<open>Pagination ends and counts the population (C7)\<close>

lemma onlyMatchScores_refl: "onlyMatchScores w w"
  unfolding onlyMatchScores_def by (rule exI [of _ "matchScore_table w"]) simp

lemma onlyMatchScores_trans:
  "onlyMatchScores a b \<Longrightarrow> onlyMatchScores b c \<Longrightarrow> onlyMatchScores a c"
  unfolding onlyMatchScores_def by auto

lemma onlyMatchScores_upsert: "onlyMatchScores w (upsertMatchScore w d)"
  unfolding onlyMatchScores_def upsertMatchScore_def by blast

lemma promiseAll_counts:
  assumes "\<And>x w0. x \<in> set xs \<Longrightarrow> fst (f x w0) = 1 \<and> onlyMatchScores w0 (snd (f x w0))"
  shows "fst (promiseAll f xs w) = replicate (length xs) 1 \<and> onlyMatchScores w (snd (promiseAll f xs w))"
  using assms
proof (induction xs arbitrary: w)
  case Nil
  then show ?case by (simp add: onlyMatchScores_refl)
next
  case (Cons x xs)
  obtain r w1 where f: "f x w = (r, w1)" by (cases "f x w")
  obtain rs w2 where p: "promiseAll f xs w1 = (rs, w2)" by (cases "promiseAll f xs w1")
  have 1: "r = 1" "onlyMatchScores w w1" using Cons.prems [of x w] f by auto
  have 2: "rs = replicate (length xs) 1" "onlyMatchScores w1 w2"
    using Cons.IH [of w1] Cons.prems p by auto
  show ?case using f p 1 2 by (auto intro: onlyMatchScores_trans)
qed

lemma foldl_plus_replicate: "foldl (+) a (replicate n (Suc 0)) = a + n"
  by (induction n arbitrary: a) auto

lemma runChunks_step:
  assumes "\<And>x w0. x \<in> set (concat chunks) \<Longrightarrow> fst (f x w0) = 1 \<and> onlyMatchScores w0 (snd (f x w0))"
  shows "\<exists>w'. foldl (\<lambda>(totalCalculated, w0) chunk.
              let (results, w1) = promiseAll f chunk w0
              in (totalCalculated + foldl (+) 0 results, w1)) (t, w) chunks
           = (t + length (concat chunks), w') \<and> onlyMatchScores w w'"
  using assms
proof (induction chunks arbitrary: t w)
  case Nil
  then show ?case by (simp add: onlyMatchScores_refl)
next
  case (Cons c cs)
  obtain rs w1 where p: "promiseAll f c w = (rs, w1)" by (cases "promiseAll f c w")
  have "fst (promiseAll f c w) = replicate (length c) 1 \<and> onlyMatchScores w (snd (promiseAll f c w))"
    by (rule promiseAll_counts) (use Cons.prems in auto)
  then have 1: "rs = replicate (length c) 1" "onlyMatchScores w w1" using p by auto
  obtain w' where 2: "foldl (\<lambda>(totalCalculated, w0) chunk.
              let (results, w1) = promiseAll f chunk w0
              in (totalCalculated + foldl (+) 0 results, w1)) (t + length c, w1) cs
           = (t + length c + length (concat cs), w')" "onlyMatchScores w1 w'"
    using Cons.IH [of "t + length c" w1] Cons.prems by auto
  show ?case using p 1 2
    by (auto simp: foldl_plus_replicate intro: onlyMatchScores_trans)
qed

lemma runChunks_counts:
  assumes "\<And>x w0. x \<in> set (concat chunks) \<Longrightarrow> fst (f x w0) = 1 \<and> onlyMatchScores w0 (snd (f x w0))"
  shows "\<exists>w'. runChunks f chunks w = (length (concat chunks), w') \<and> onlyMatchScores w w'"
  using runChunks_step [where f = f and chunks = chunks and t = 0 and w = w] assms
  unfolding runChunks_def by simp

lemma concat_chunksFrom: "concat (chunksFrom i xs) = drop i xs"
proof (induction i xs rule: chunksFrom.induct)
  case (1 i xs)
  show ?case
  proof (cases "i < length xs")
    case True
    then have "concat (chunksFrom i xs) = take CONCURRENCY_LIMIT (drop i xs) @ drop (i + CONCURRENCY_LIMIT) xs"
      using 1 by (subst chunksFrom.simps) simp
    also have "\<dots> = drop i xs"
      by (metis add.commute append_take_drop_id drop_drop)
    finally show ?thesis .
  next
    case False
    then show ?thesis by (subst chunksFrom.simps) simp
  qed
qed


lemma recalculateBatchForWorker_counts:
  assumes "set vacancyIds \<subseteq> v_id ` {v \<in> set (vacancy_table w). v_deletedAt v = None}"
  shows "\<exists>w'. recalculateBatchForWorker w wid vacancyIds = (length vacancyIds, w') \<and>
              onlyMatchScores w w'"
proof -
  define vacancies where
    "vacancies = filter (\<lambda>v. v_id v \<in> set vacancyIds \<and> v_deletedAt v = None) (vacancy_table w)"
  define vacancyMap where "vacancyMap = map_of (rev (map (\<lambda>v. (v_id v, v)) vacancies))"
  define vacancySkillsMap where
    "vacancySkillsMap = groupInto vs_vacancyId
       (filter (\<lambda>s. vs_vacancyId s \<in> set vacancyIds \<and> vs_deletedAt s = None) (vacancySkill_table w))"
  define processVacancy where
    "processVacancy = (\<lambda>vid w0.
             case vacancyMap vid of
               None \<Rightarrow> (0::nat, w0)
             | Some vacancy \<Rightarrow>
                 let vSkills = getOrEmpty vacancySkillsMap vid;
                     scores = calculateScoreComponents (calendarYear w0) (getWorkerSkills w wid)
                                (getWorkerEducation w wid) (getWorkerExperience w wid) vSkills vacancy
                                (getWorkerProfile w wid)
                 in (1, upsertMatchScore w0 (withPair wid vid scores)))"
  have run: "recalculateBatchForWorker w wid vacancyIds =
               runChunks processVacancy (chunksFrom 0 vacancyIds) w"
    unfolding recalculateBatchForWorker_def processVacancy_def vacancySkillsMap_def vacancyMap_def
      vacancies_def Let_def ..
  have present: "vacancyMap vid \<noteq> None" if "vid \<in> set vacancyIds" for vid
  proof -
    from that assms obtain v where "v \<in> set (vacancy_table w)" "v_deletedAt v = None" "v_id v = vid"
      by auto
    then have "vid \<in> fst ` set (rev (map (\<lambda>v. (v_id v, v)) vacancies))"
      using that unfolding vacancies_def by force
    then show ?thesis unfolding vacancyMap_def by (simp only: map_of_eq_None_iff not_not)
  qed
  have each: "fst (processVacancy vid w0) = 1 \<and> onlyMatchScores w0 (snd (processVacancy vid w0))"
    if "vid \<in> set (concat (chunksFrom 0 vacancyIds))" for vid w0
  proof -
    from that have "vid \<in> set vacancyIds" by (simp add: concat_chunksFrom)
    then obtain vacancy where "vacancyMap vid = Some vacancy" using present by blast
    then show ?thesis
      unfolding processVacancy_def by (simp add: Let_def onlyMatchScores_upsert)
  qed
  from runChunks_counts [of "chunksFrom 0 vacancyIds" processVacancy w, OF each]
  show ?thesis unfolding run by (simp add: concat_chunksFrom)
qed


lemma recalculateBatchForVacancy_counts:
  assumes "getVacancy w vid \<noteq> None"
  shows "\<exists>w'. recalculateBatchForVacancy w vid workerIds = (length workerIds, w') \<and>
              onlyMatchScores w w'"
proof -
  from assms obtain vacancy where v: "getVacancy w vid = Some vacancy" by blast
  define processWorker where
    "processWorker = (\<lambda>wid w0.
                let workerSkills = getOrEmpty (groupInto ws_userId
                       (filter (\<lambda>s. ws_userId s \<in> set workerIds \<and> ws_deletedAt s = None)
                                  (workerSkill_table w))) wid;
                    workerEducation = getOrEmpty (groupInto we_userId
                       (filter (\<lambda>e. we_userId e \<in> set workerIds \<and> we_deletedAt e = None)
                                     (workerEducation_table w))) wid;
                    workerExperience = getOrEmpty (groupInto wx_userId
                       (filter (\<lambda>e. wx_userId e \<in> set workerIds \<and> wx_deletedAt e = None)
                                      (workerExperience_table w))) wid;
                    workerProfile = map_of (rev (map (\<lambda>p. (wp_userId p, p))
                       (filter (\<lambda>p. wp_userId p \<in> set workerIds) (workerProfile_table w)))) wid;
                    scores = calculateScoreComponents (calendarYear w0) workerSkills workerEducation
                               workerExperience (getVacancySkills w vid) vacancy workerProfile
                in (1::nat, upsertMatchScore w0 (withPair wid vid scores)))"
  have run: "recalculateBatchForVacancy w vid workerIds =
               runChunks processWorker (chunksFrom 0 workerIds) w"
    unfolding recalculateBatchForVacancy_def processWorker_def Let_def v by simp
  have each: "fst (processWorker wid w0) = 1 \<and> onlyMatchScores w0 (snd (processWorker wid w0))"
    for wid w0
    unfolding processWorker_def by (simp add: Let_def onlyMatchScores_upsert)
  from runChunks_counts [of "chunksFrom 0 workerIds" processWorker w] each
  show ?thesis unfolding run by (simp add: concat_chunksFrom)
qed

lemma onlyMatchScores_tables:
  assumes "onlyMatchScores w w'"
  shows "openVacancies w' = openVacancies w" "activeWorkers w' = activeWorkers w"
    "getVacancy w' vid = getVacancy w vid"
    "getActiveVacanciesForWorker w' wid p ps = getActiveVacanciesForWorker w wid p ps"
    "getActiveWorkersForVacancy w' vid p ps = getActiveWorkersForVacancy w vid p ps"
  using assms
  by (auto simp: onlyMatchScores_def openVacancies_def activeWorkers_def getVacancy_def
      getActiveVacanciesForWorker_def getActiveWorkersForVacancy_def)

lemma items_paginate:
  "items (paginate sel p 200) = take 200 (drop ((p - 1) * 200) sel)"
  by (simp add: paginate_def)

lemma length_page:
  "length (items (paginate sel p 200)) = min 200 (length sel - (p - 1) * 200)"
  by (simp add: paginate_def min.commute)

lemma set_page: "set (items (paginate sel p ps)) \<subseteq> set sel"
  by (auto simp: paginate_def Let_def dest: in_set_takeD in_set_dropD)

lemma openVacancies_undeleted:
  "v_id ` set (orderByDesc v_publishedAt (openVacancies w))
     \<subseteq> v_id ` {v \<in> set (vacancy_table w). v_deletedAt v = None}"
  by (auto simp: orderByDesc_def openVacancies_def)

lemma recalcForWorker_loop_total:
  assumes "k = length (openVacancies w) - (p - 1) * 200" and "1 \<le> p"
  shows "\<exists>w'. recalcForWorker_loop wid p t b w = Some ((t + k, b + (k + 199) div 200), w') \<and>
              onlyMatchScores w w'"
  using assms
proof (induction k arbitrary: p t b w rule: less_induct)
  case (less k)
  let ?sel = "orderByDesc v_publishedAt (openVacancies w)"
  let ?result = "getActiveVacanciesForWorker w wid p BATCH_SIZE"
  have n: "length ?sel = length (openVacancies w)" by (simp add: orderByDesc_def)
  have len: "length (items ?result) = min 200 k"
    using less.prems n by (simp add: getActiveVacanciesForWorker_def BATCH_SIZE_def length_page)
  show ?case
  proof (cases "k = 0")
    case True
    then show ?thesis
      using len by (subst recalcForWorker_loop.simps) (simp add: onlyMatchScores_refl)
  next
    case False
    have ne: "items ?result \<noteq> []" using len False by auto
    have sub: "set (map v_id (items ?result))
                 \<subseteq> v_id ` {v \<in> set (vacancy_table w). v_deletedAt v = None}"
      using set_page [of ?sel p BATCH_SIZE] openVacancies_undeleted [of w]
      by (auto simp: getActiveVacanciesForWorker_def)
    from recalculateBatchForWorker_counts [OF sub, of wid]
    obtain w1 where w1: "recalculateBatchForWorker w wid (map v_id (items ?result)) = (min 200 k, w1)"
      "onlyMatchScores w w1" using len by auto
    show ?thesis
    proof (cases "k < 200")
      case True
      then have "(k + 199) div 200 = 1" using False by simp
      then show ?thesis
        using len w1 True False ne
        by (subst recalcForWorker_loop.simps) (simp add: BATCH_SIZE_def Let_def)
    next
      case ge: False
      have k': "k - 200 = length (openVacancies w1) - (p + 1 - 1) * 200"
        using less.prems onlyMatchScores_tables(1) [OF w1(2)] by (simp add: algebra_simps)
      have "k - 200 < k" using ge by simp
      from less.IH [OF this k', of "t + 200" "b + 1"]
      obtain w' where w': "recalcForWorker_loop wid (p + 1) (t + 200) (b + 1) w1 =
          Some ((t + 200 + (k - 200), b + 1 + (k - 200 + 199) div 200), w')" "onlyMatchScores w1 w'"
        by auto
      have "(k + 199) div 200 = 1 + (k - 200 + 199) div 200" using ge by simp
      then show ?thesis
        using len w1 ge w' ne onlyMatchScores_trans [OF w1(2) w'(2)]
        by (subst recalcForWorker_loop.simps) (simp add: BATCH_SIZE_def Let_def)
    qed
  qed
qed


lemma recalcForVacancy_loop_total:
  assumes "k = length (activeWorkers w) - (p - 1) * 200" and "1 \<le> p"
    and "getVacancy w vid \<noteq> None"
  shows "\<exists>w'. recalcForVacancy_loop vid p t b w = Some ((t + k, b + (k + 199) div 200), w') \<and>
              onlyMatchScores w w'"
  using assms
proof (induction k arbitrary: p t b w rule: less_induct)
  case (less k)
  let ?sel = "orderByDesc wp_createdAt (activeWorkers w)"
  let ?result = "getActiveWorkersForVacancy w vid p BATCH_SIZE"
  have n: "length ?sel = length (activeWorkers w)" by (simp add: orderByDesc_def)
  have len: "length (items ?result) = min 200 k"
    using less.prems n by (simp add: getActiveWorkersForVacancy_def BATCH_SIZE_def length_page)
  show ?case
  proof (cases "k = 0")
    case True
    then show ?thesis
      using len by (subst recalcForVacancy_loop.simps) (simp add: onlyMatchScores_refl)
  next
    case False
    have ne: "items ?result \<noteq> []" using len False by auto
    from recalculateBatchForVacancy_counts [OF less.prems(3), of "map wp_userId (items ?result)"]
    obtain w1 where w1: "recalculateBatchForVacancy w vid (map wp_userId (items ?result)) = (min 200 k, w1)"
      "onlyMatchScores w w1" using len by auto
    show ?thesis
    proof (cases "k < 200")
      case True
      then have "(k + 199) div 200 = 1" using False by simp
      then show ?thesis
        using len w1 True False ne
        by (subst recalcForVacancy_loop.simps) (simp add: BATCH_SIZE_def Let_def)
    next
      case ge: False
      have k': "k - 200 = length (activeWorkers w1) - (p + 1 - 1) * 200"
        using less.prems onlyMatchScores_tables(2) [OF w1(2)] by (simp add: algebra_simps)
      have v': "getVacancy w1 vid \<noteq> None"
        using less.prems(3) onlyMatchScores_tables(3) [OF w1(2)] by simp
      have "k - 200 < k" using ge by simp
      from less.IH [OF this k' _ v', of "t + 200" "b + 1"]
      obtain w' where w': "recalcForVacancy_loop vid (p + 1) (t + 200) (b + 1) w1 =
          Some ((t + 200 + (k - 200), b + 1 + (k - 200 + 199) div 200), w')" "onlyMatchScores w1 w'"
        by auto
      have "(k + 199) div 200 = 1 + (k - 200 + 199) div 200" using ge by simp
      then show ?thesis
        using len w1 ge w' ne onlyMatchScores_trans [OF w1(2) w'(2)]
        by (subst recalcForVacancy_loop.simps) (simp add: BATCH_SIZE_def Let_def)
    qed
  qed
qed

lemma recalcForWorker_result:
  "\<exists>w'. recalcForWorker w wid ip =
     Some (\<lparr> calculated = length (openVacancies w),
             batch = (length (openVacancies w) + 199) div 200 \<rparr>, w')"
proof -
  from recalcForWorker_loop_total [of "length (openVacancies w)" w 1 wid 0 0]
  obtain w1 where "recalcForWorker_loop wid 1 0 0 w =
      Some ((length (openVacancies w), (length (openVacancies w) + 199) div 200), w1)"
    by auto
  then show ?thesis by (simp add: recalcForWorker_def Let_def)
qed

lemma recalcForVacancy_result:
  assumes "getVacancy w vid \<noteq> None"
  shows "\<exists>w'. recalcForVacancy w vid ip =
     Some (Inr \<lparr> calculated = length (activeWorkers w),
                 batch = (length (activeWorkers w) + 199) div 200 \<rparr>, w')"
proof -
  from recalcForVacancy_loop_total [of "length (activeWorkers w)" w 1 vid 0 0] assms
  obtain w1 where "recalcForVacancy_loop vid 1 0 0 w =
      Some ((length (activeWorkers w), (length (activeWorkers w) + 199) div 200), w1)"
    by auto
  then show ?thesis using assms by (auto simp: recalcForVacancy_def Let_def)
qed

lemma page_sizes_450:
  assumes "length (activeWorkers w) = 450"
  shows "map (\<lambda>p. length (items (getActiveWorkersForVacancy w vid p BATCH_SIZE))) [1, 2, 3]
           = [200, 200, 50]"
  using assms
  by (simp add: getActiveWorkersForVacancy_def BATCH_SIZE_def length_page orderByDesc_def)

text \<open>
  C7. Over a stable population, \<open>recalcForWorker\<close> and \<open>recalcForVacancy\<close> return:
  the page loop ends, the calculated count is the number of open vacancies (of active
  workers), and the number of batches is the number of non-empty pages of 200. A missing
  vacancy ends \<open>recalcForVacancy\<close> at once with the not-found error. With 450 active
  workers the pages hold 200, 200 and 50 workers, and the result is 450 calculated in 3
  batches.
\<close>

theorem recalc_terminates_and_counts:
  "(\<exists>w'. recalcForWorker w wid ip =
      Some (\<lparr> calculated = length (openVacancies w),
              batch = (length (openVacancies w) + 199) div 200 \<rparr>, w'))
   \<and> (getVacancy w vid = None \<longrightarrow>
        recalcForVacancy w vid ip = Some (Inl (NotFoundException ''VACANCY_NOT_FOUND''), w))
   \<and> (getVacancy w vid \<noteq> None \<longrightarrow>
        (\<exists>w'. recalcForVacancy w vid ip =
           Some (Inr \<lparr> calculated = length (activeWorkers w),
                       batch = (length (activeWorkers w) + 199) div 200 \<rparr>, w')))
   \<and> (getVacancy w vid \<noteq> None \<and> length (activeWorkers w) = 450 \<longrightarrow>
        (\<exists>w'. recalcForVacancy w vid ip = Some (Inr \<lparr> calculated = 450, batch = 3 \<rparr>, w')) \<and>
        map (\<lambda>p. length (items (getActiveWorkersForVacancy w vid p BATCH_SIZE))) [1, 2, 3]
          = [200, 200, 50])"
proof (intro conjI impI)
  show "\<exists>w'. recalcForWorker w wid ip =
      Some (\<lparr> calculated = length (openVacancies w),
              batch = (length (openVacancies w) + 199) div 200 \<rparr>, w')"
    by (rule recalcForWorker_result)
next
  assume "getVacancy w vid = None"
  then show "recalcForVacancy w vid ip = Some (Inl (NotFoundException ''VACANCY_NOT_FOUND''), w)"
    by (simp add: recalcForVacancy_def)
next
  assume "getVacancy w vid \<noteq> None"
  then show "\<exists>w'. recalcForVacancy w vid ip =
           Some (Inr \<lparr> calculated = length (activeWorkers w),
                       batch = (length (activeWorkers w) + 199) div 200 \<rparr>, w')"
    by (rule recalcForVacancy_result)
next
  assume a: "getVacancy w vid \<noteq> None \<and> length (activeWorkers w) = 450"
  then show "\<exists>w'. recalcForVacancy w vid ip = Some (Inr \<lparr> calculated = 450, batch = 3 \<rparr>, w')"
    using recalcForVacancy_result [of w vid ip] by simp
  from a show "map (\<lambda>p. length (items (getActiveWorkersForVacancy w vid p BATCH_SIZE))) [1, 2, 3]
          = [200, 200, 50]"
    by (intro page_sizes_450) simp
qed

lemma scenarioD_vacancy: "getVacancy scenarioD ''v1'' \<noteq> None"
  by (simp add: getVacancy_def scenarioD_def plainVacancy_def)

lemma scenarioD_workers: "length (activeWorkers scenarioD) = 450"
  by (simp add: activeWorkers_def scenarioD_def workerNo_def filter_map comp_def)

theorem recalc_terminates_and_counts_witness:
  "(\<exists>w'. recalcForWorker scenarioD ''w'' None = Some (\<lparr> calculated = 1, batch = 1 \<rparr>, w'))
   \<and> (\<exists>w'. recalcForVacancy scenarioD ''v1'' None = Some (Inr \<lparr> calculated = 450, batch = 3 \<rparr>, w'))
   \<and> recalcForVacancy scenarioD ''v2'' None = Some (Inl (NotFoundException ''VACANCY_NOT_FOUND''), scenarioD)
   \<and> map (\<lambda>p. length (items (getActiveWorkersForVacancy scenarioD ''v1'' p BATCH_SIZE))) [1, 2, 3]
          = [200, 200, 50]"
proof -
  have o: "length (openVacancies scenarioD) = 1"
    by (simp add: openVacancies_def scenarioD_def plainVacancy_def)
  have m: "getVacancy scenarioD ''v2'' = None"
    by (simp add: getVacancy_def scenarioD_def plainVacancy_def)
  show ?thesis
    using recalc_terminates_and_counts [of scenarioD "''w''" None "''v1''"]
      recalc_terminates_and_counts [of scenarioD "''w''" None "''v2''"]
      scenarioD_vacancy scenarioD_workers o m
    by simp
qed

section \<open>Single-flight cache reads (C8)\<close>

lemma notStarted_invariant: "notStarted c \<Longrightarrow> callInvariant c"
  by (simp add: notStarted_def callInvariant_def)

lemma callInvariant_singleFlight: "callInvariant c \<Longrightarrow> singleFlight c"
  by (cases "pc c") (auto simp: callInvariant_def singleFlight_def)

lemma callStep_invariant:
  assumes "callInvariant c"
  shows "callInvariant (snd (callStep w c))"
proof (cases "pc c")
  case ReadCache
  then show ?thesis using assms
    by (auto simp: callStep_def callInvariant_def loopHead_def LOCK_MAX_RETRIES_def
        split: option.splits)
next
  case (AcquireLock n)
  then show ?thesis using assms
    by (auto simp: callStep_def callInvariant_def split: prod.splits)
next
  case DoubleCheck
  then show ?thesis using assms
    by (auto simp: callStep_def callInvariant_def split: option.splits)
next
  case Fetch
  then show ?thesis using assms by (simp add: callStep_def callInvariant_def)
next
  case (SetMatches ms)
  then show ?thesis using assms by (simp add: callStep_def callInvariant_def)
next
  case (ReleaseLock ms)
  then show ?thesis using assms by (simp add: callStep_def callInvariant_def)
next
  case (Sleeping n t)
  then show ?thesis using assms by (simp add: callStep_def callInvariant_def)
next
  case (Recheck n)
  then show ?thesis using assms
    by (auto simp: callStep_def callInvariant_def loopHead_def LOCK_MAX_RETRIES_def
        split: option.splits)
next
  case Fallback
  then show ?thesis using assms by (simp add: callStep_def callInvariant_def)
next
  case (Returned ms)
  then show ?thesis using assms by (simp add: callStep_def callInvariant_def)
qed

lemma systemStep_calls:
  "calls (systemStep sys e) = calls sys \<or>
   (\<exists>i. e = Run i \<and> i < length (calls sys) \<and>
        calls (systemStep sys e) = (calls sys)[i := snd (callStep (world sys) (calls sys ! i))] \<and>
        world (systemStep sys e) = fst (callStep (world sys) (calls sys ! i)))"
  by (cases e) (auto simp: systemStep_def split: prod.splits)

lemma systemStep_invariant:
  assumes "\<forall>c\<in>set (calls sys). callInvariant c"
  shows "\<forall>c\<in>set (calls (systemStep sys e)). callInvariant c"
proof (cases e)
  case (Run i)
  show ?thesis
  proof (cases "i < length (calls sys)")
    case True
    then have "callInvariant (calls sys ! i)" using assms by simp
    then have "callInvariant (snd (callStep (world sys) (calls sys ! i)))"
      by (rule callStep_invariant)
    then show ?thesis using assms True Run
      by (auto simp: systemStep_def split: prod.splits dest!: set_update_subset_insert [THEN subsetD])
  next
    case False
    then show ?thesis using assms Run by (simp add: systemStep_def)
  qed
next
  case (Tick d)
  then show ?thesis using assms by (simp add: systemStep_def)
qed

lemma run_snoc: "run sys (schedule @ [e]) = systemStep (run sys schedule) e"
  by (simp add: run_def)

lemma run_invariant:
  assumes "\<forall>c\<in>set (calls sys). callInvariant c"
  shows "\<forall>c\<in>set (calls (run sys schedule)). callInvariant c"
proof (induction schedule rule: rev_induct)
  case Nil
  then show ?case using assms by (simp add: run_def)
next
  case (snoc e schedule)
  then show ?case unfolding run_snoc by (rule systemStep_invariant)
qed

lemma length_calls_systemStep: "length (calls (systemStep sys e)) = length (calls sys)"
  by (cases e) (auto simp: systemStep_def split: prod.splits)

lemma length_calls_run: "length (calls (run sys schedule)) = length (calls sys)"
  by (induction schedule rule: rev_induct) (simp_all add: run_def length_calls_systemStep)

lemma sum_list_at_most_length:
  "\<forall>x\<in>set xs. f x \<le> (1::nat) \<Longrightarrow> sum_list (map f xs) \<le> length xs"
  by (induction xs) auto

lemma invocations_at_most_calls:
  assumes "\<forall>c\<in>set (calls sys). singleFlight c"
  shows "fetcherInvocations sys \<le> length (calls sys)"
  unfolding fetcherInvocations_def
  using assms by (intro sum_list_at_most_length) (simp add: singleFlight_def)


lemma readMatches_tick:
  "readMatches (w \<lparr> clock := clock w + d \<rparr>) k \<noteq> None \<Longrightarrow> readMatches w k \<noteq> None"
  by (auto simp: readMatches_def redis_get_def split: option.splits if_splits RedisValue.splits)

lemma getMatches_cacheKey: "getMatches s w i = readMatches w (cacheKey s i)"
  by (cases s) (simp_all add: getMatches_def cacheKey_def getWorkerMatches_def getVacancyMatches_def)

lemma getMatches_tick:
  "getMatches s (w \<lparr> clock := clock w + d \<rparr>) i \<noteq> None \<Longrightarrow> getMatches s w i \<noteq> None"
  unfolding getMatches_cacheKey by (rule readMatches_tick)

lemma lock_key_not_cache_key: "keyPrefix @ ''lock:'' @ k \<noteq> keyPrefix @ cacheKey s i"
  by (cases s) (simp_all add: cacheKey_def)

lemma redis_get_setex_other:
  "keyPrefix @ k' \<noteq> keyPrefix @ k \<Longrightarrow> redis_get (redis_setex w k' t v) k = redis_get w k"
  by (simp add: redis_get_def redis_setex_def split: option.splits)

lemma readMatches_acquireLock:
  "readMatches (snd (acquireLock w k own)) (cacheKey s i) = readMatches w (cacheKey s i)"
proof (cases "redis_get w (''lock:'' @ k) = None")
  case True
  then have "snd (acquireLock w k own) = redis_setex w (''lock:'' @ k) LOCK_TTL (RString own)"
    by (simp add: acquireLock_def redis_set_ex_nx_def)
  then show ?thesis
    using redis_get_setex_other [where k' = "''lock:'' @ k" and k = "cacheKey s i" and w = w
        and t = LOCK_TTL and v = "RString own"] lock_key_not_cache_key [of k s i]
    by (simp add: readMatches_def)
next
  case False
  then obtain held where "redis_get w (''lock:'' @ k) = Some held" by blast
  then have "snd (acquireLock w k own) = w"
    by (simp add: acquireLock_def redis_set_ex_nx_def)
  then show ?thesis by simp
qed

lemma callStep_keys:
  "subject (snd (callStep w c)) = subject c \<and> subjectId (snd (callStep w c)) = subjectId c"
  by (cases "pc c") (auto simp: callStep_def split: option.splits prod.splits)

lemma callStep_hasFetched_mono: "hasFetched c \<Longrightarrow> hasFetched (snd (callStep w c))"
  by (cases "pc c") (auto simp: callStep_def hasFetched_def split: option.splits prod.splits)

lemma callStep_pastFetch:
  assumes "pastFetch (snd (callStep w c))"
  shows "pastFetch c \<or> hasFetched (snd (callStep w c)) \<or>
         getMatches (subject c) w (subjectId c) \<noteq> None"
  using assms
  by (cases "pc c")
    (auto simp: callStep_def pastFetch_def hasFetched_def loopHead_def
      split: option.splits prod.splits if_splits)

lemma callStep_cache:
  assumes "getMatches s (fst (callStep w c)) i \<noteq> None"
  shows "getMatches s w i \<noteq> None \<or> pastFetch c"
proof (cases "pc c")
  case (AcquireLock n)
  obtain ok w' where a: "acquireLock w (cacheKey (subject c) (subjectId c)) (lockOwner c) = (ok, w')"
    by (cases "acquireLock w (cacheKey (subject c) (subjectId c)) (lockOwner c)")
  then have "fst (callStep w c) = w'" using AcquireLock by (simp add: callStep_def)
  moreover have "readMatches w' (cacheKey s i) = readMatches w (cacheKey s i)"
    using readMatches_acquireLock [of w "cacheKey (subject c) (subjectId c)" "lockOwner c" s i] a
    by simp
  ultimately show ?thesis using assms by (simp add: getMatches_cacheKey)
qed (use assms in \<open>auto simp: callStep_def pastFetch_def split: option.splits if_splits\<close>)

lemma systemStep_fetchedBeforeUse:
  assumes J: "fetchedBeforeUse sys"
  shows "fetchedBeforeUse (systemStep sys e)"
proof (cases e)
  case (Tick d)
  then have "calls (systemStep sys e) = calls sys"
    "world (systemStep sys e) = (world sys) \<lparr> clock := clock (world sys) + d \<rparr>"
    by (simp_all add: systemStep_def)
  then have eq: "calls (systemStep sys e) = calls sys"
    and w: "world (systemStep sys e) = (world sys) \<lparr> clock := clock (world sys) + d \<rparr>"
    by simp_all
  show ?thesis
  proof (cases "\<exists>c\<in>set (calls sys). pastFetch c \<or>
            getMatches (subject c) (world sys) (subjectId c) \<noteq> None")
    case True
    then show ?thesis using J unfolding fetchedBeforeUse_def eq by simp
  next
    case False
    then have "\<not> (\<exists>c\<in>set (calls sys). pastFetch c \<or>
            getMatches (subject c) ((world sys) \<lparr> clock := clock (world sys) + d \<rparr>) (subjectId c)
              \<noteq> None)"
      using getMatches_tick by blast
    then show ?thesis unfolding fetchedBeforeUse_def eq w by simp
  qed
next
  case (Run i)
  show ?thesis
  proof (cases "i < length (calls sys)")
    case False
    then show ?thesis using J Run by (simp add: systemStep_def)
  next
    case True
    define c where "c = calls sys ! i"
    define c' where "c' = snd (callStep (world sys) c)"
    define w' where "w' = fst (callStep (world sys) c)"
    have cs: "calls (systemStep sys e) = (calls sys)[i := c']" and ws: "world (systemStep sys e) = w'"
      using True Run by (simp_all add: systemStep_def c_def c'_def w'_def split: prod.splits)
    have cin: "c \<in> set (calls sys)" using True by (simp add: c_def)
    have c'in: "c' \<in> set ((calls sys)[i := c'])" using True by (simp add: set_update_memI)
    show ?thesis
    proof (cases "hasFetched c'")
      case True
      then show ?thesis unfolding fetchedBeforeUse_def cs using c'in by auto
    next
      case nf: False
      have keep: "\<exists>y\<in>set ((calls sys)[i := c']). hasFetched y"
        if "\<exists>y\<in>set (calls sys). hasFetched y"
      proof -
        from that obtain j where j: "j < length (calls sys)" "hasFetched (calls sys ! j)"
          by (auto simp: in_set_conv_nth)
        have "j \<noteq> i"
          using j(2) nf callStep_hasFetched_mono [of c "world sys"] by (auto simp: c_def c'_def)
        then have "(calls sys)[i := c'] ! j = calls sys ! j" by simp
        then show ?thesis using j by (metis length_list_update nth_mem)
      qed
      have prem: "\<exists>x\<in>set (calls sys). pastFetch x \<or>
                    getMatches (subject x) (world sys) (subjectId x) \<noteq> None"
        if x: "x \<in> set ((calls sys)[i := c'])"
          and px: "pastFetch x \<or> getMatches (subject x) w' (subjectId x) \<noteq> None" for x
      proof -
        from x have "x = c' \<or> x \<in> set (calls sys)"
          using set_update_subset_insert [of "calls sys" i c'] by auto
        then show ?thesis
        proof
          assume xc: "x = c'"
          from px show ?thesis
          proof
            assume "pastFetch x"
            then show ?thesis
              using callStep_pastFetch [of "world sys" c] nf cin xc by (auto simp: c'_def)
          next
            assume "getMatches (subject x) w' (subjectId x) \<noteq> None"
            then have "getMatches (subject c) w' (subjectId c) \<noteq> None"
              using callStep_keys [of "world sys" c] xc by (simp add: c'_def)
            then show ?thesis
              using callStep_cache [of "subject c" "world sys" c "subjectId c"] cin
              by (auto simp: w'_def)
          qed
        next
          assume xin: "x \<in> set (calls sys)"
          from px show ?thesis
          proof
            assume "pastFetch x"
            then show ?thesis using xin by blast
          next
            assume "getMatches (subject x) w' (subjectId x) \<noteq> None"
            then show ?thesis
              using callStep_cache [of "subject x" "world sys" c "subjectId x"] cin xin
              by (auto simp: w'_def)
          qed
        qed
      qed
      show ?thesis
        unfolding fetchedBeforeUse_def cs ws
        using prem keep J unfolding fetchedBeforeUse_def
        by (auto split: if_splits)
    qed
  qed
qed

lemma run_fetchedBeforeUse:
  assumes "fetchedBeforeUse sys"
  shows "fetchedBeforeUse (run sys schedule)"
proof (induction schedule rule: rev_induct)
  case Nil
  then show ?case using assms by (simp add: run_def)
next
  case (snoc e schedule)
  then show ?case unfolding run_snoc by (rule systemStep_fetchedBeforeUse)
qed

lemma initially_fetchedBeforeUse:
  assumes "\<forall>c\<in>set (calls sys). notStarted c"
    and "\<forall>c\<in>set (calls sys). getMatches (subject c) (world sys) (subjectId c) = None"
  shows "fetchedBeforeUse sys"
  using assms by (auto simp: fetchedBeforeUse_def notStarted_def pastFetch_def)

lemma fetched_counts:
  assumes "c \<in> set (calls sys)" and "hasFetched c"
  shows "1 \<le> fetcherInvocations sys"
proof -
  have "lockedFetches c + fallbackFetches c \<in> set (map (\<lambda>c. lockedFetches c + fallbackFetches c) (calls sys))"
    using assms(1) by auto
  then have "lockedFetches c + fallbackFetches c \<le> fetcherInvocations sys"
    unfolding fetcherInvocations_def by (rule member_le_sum_list) simp
  then show ?thesis using assms(2) by (simp add: hasFetched_def)
qed

lemmas machine_defs = run_def systemStep_def callStep_def getOrSetCache_def loopHead_def
  getMatches_def setMatches_def getVacancyMatches_def setVacancyMatches_def readMatches_def
  writeMatches_def acquireLock_def releaseLock_def redis_get_def redis_setex_def redis_del_def
  redis_set_ex_nx_def cacheKey_def keyPrefix_def LOCK_TTL_def LOCK_RETRY_DELAY_def
  LOCK_MAX_RETRIES_def CACHE_TTL_def CACHE_LIMIT_def smallWorld_def fetcherInvocations_def
  Let_def

lemma refetch_run: "fetcherInvocations (run (twoCalls emptyFetcher) refetchSchedule) = 2 \<and>
   map pc (calls (run (twoCalls emptyFetcher) refetchSchedule)) = [Returned [], Returned []]"
  by (simp add: machine_defs twoCalls_def emptyFetcher_def refetchSchedule_def)


lemma cached_copy_run: "fetcherInvocations (run (twoCalls stampingFetcher) cachedCopySchedule) = 1 \<and>
   map hasReturned (calls (run (twoCalls stampingFetcher) cachedCopySchedule)) = [True, True] \<and>
   pc (calls (run (twoCalls stampingFetcher) cachedCopySchedule) ! 0) \<noteq>
   pc (calls (run (twoCalls stampingFetcher) cachedCopySchedule) ! 1)"
  by (simp add: machine_defs twoCalls_def stampingFetcher_def cachedCopySchedule_def
      cachedScore_def hasReturned_def)

lemma refetch_returns:
  "map hasReturned (calls (run (twoCalls emptyFetcher) refetchSchedule)) = [True, True]"
  by (simp add: machine_defs twoCalls_def emptyFetcher_def refetchSchedule_def hasReturned_def)

lemma initially_empty:
  "getVacancyMatches (world (twoCalls f)) ''v1'' = None \<and> redis (world (twoCalls f)) = Map.empty"
  by (simp add: twoCalls_def smallWorld_def getVacancyMatches_def readMatches_def redis_get_def)

text \<open>
  Scenario C of the specification does not hold of the code. With an empty cache and an
  empty lock store, two concurrent calls whose fetcher finds nothing both reach the
  fetcher, since an empty list is never cached: two invocations, not one. And where one
  fetch does serve both calls, the first call returns the fetcher's list and the second
  the cached copy, which is restamped: the two lists differ.
\<close>

theorem two_calls_fetch_twice:
  "getVacancyMatches (world (twoCalls emptyFetcher)) ''v1'' = None \<and>
   redis (world (twoCalls emptyFetcher)) = Map.empty \<and>
   map hasReturned (calls (run (twoCalls emptyFetcher) refetchSchedule)) = [True, True] \<and>
   fetcherInvocations (run (twoCalls emptyFetcher) refetchSchedule) = 2 \<and>
   map hasReturned (calls (run (twoCalls stampingFetcher) cachedCopySchedule)) = [True, True] \<and>
   pc (calls (run (twoCalls stampingFetcher) cachedCopySchedule) ! 0) \<noteq>
   pc (calls (run (twoCalls stampingFetcher) cachedCopySchedule) ! 1)"
  using refetch_run cached_copy_run refetch_returns initially_empty [of emptyFetcher] by blast

subsection \<open>Mutual exclusion and the single fetch\<close>

text \<open>
  The per-call bounds hold whatever the lock does. What makes the read single-flight is
  the refusal of \<open>SET ... NX\<close>: while a call is in its critical section its token is
  live under the lock key, so no other call enters. The call that fetches stores a
  non-empty list before it releases, so every later double-check and re-read hits.
\<close>

lemma callStep_clock: "clock (fst (callStep w c)) = clock w"
  by (cases "pc c")
    (auto simp: callStep_def acquireLock_def redis_set_ex_nx_def redis_setex_def releaseLock_def
      redis_del_def setMatches_def setWorkerMatches_def setVacancyMatches_def writeMatches_def
      Let_def split: option.splits prod.splits Subject.splits)

lemma step_other:
  assumes "pc c = ReadCache \<or> pc c = DoubleCheck \<or> pc c = Fetch \<or> (\<exists>n t. pc c = Sleeping n t) \<or>
           (\<exists>n. pc c = Recheck n) \<or> pc c = Fallback \<or> (\<exists>r. pc c = Returned r)"
  shows "fst (callStep w c) = w"
  using assms by (auto simp: callStep_def split: option.splits)

lemma step_acquire:
  assumes "pc c = AcquireLock n" "subject c = s" "subjectId c = i"
  shows "(redis_get w (''lock:'' @ cacheKey s i) = None \<longrightarrow>
            pc (snd (callStep w c)) = DoubleCheck \<and>
            lockEntry s i (fst (callStep w c)) = Some (RString (lockOwner c), clock w + 10000) \<and>
            cacheEntry s i (fst (callStep w c)) = cacheEntry s i w) \<and>
         (redis_get w (''lock:'' @ cacheKey s i) \<noteq> None \<longrightarrow>
            pc (snd (callStep w c)) = Sleeping n (clock w + 50) \<and> fst (callStep w c) = w)"
  using assms lock_key_not_cache_key [of "cacheKey s i" s i]
  by (auto simp: callStep_def acquireLock_def redis_set_ex_nx_def redis_setex_def lockEntry_def
      cacheEntry_def LOCK_TTL_def LOCK_RETRY_DELAY_def)

lemma step_release:
  assumes "pc c = ReleaseLock r" "subject c = s" "subjectId c = i"
  shows "pc (snd (callStep w c)) = Returned r \<and>
         cacheEntry s i (fst (callStep w c)) = cacheEntry s i w"
  using assms lock_key_not_cache_key [of "cacheKey s i" s i]
  by (auto simp: callStep_def releaseLock_def redis_del_def cacheEntry_def Let_def)

lemma step_set:
  assumes "pc c = SetMatches ms" "subject c = s" "subjectId c = i"
  shows "pc (snd (callStep w c)) = ReleaseLock ms \<and>
         lockEntry s i (fst (callStep w c)) = lockEntry s i w \<and>
         cacheEntry s i (fst (callStep w c)) =
           (if ms = [] then cacheEntry s i w
            else Some (RJson (map (\<lambda>m. m \<lparr> cachedAt := clock w \<rparr>)
                               (take CACHE_LIMIT (sort_key (\<lambda>m. - totalScore m) ms))),
                       clock w + 600000))"
  using assms lock_key_not_cache_key [of "cacheKey s i" s i]
  by (cases s)
    (auto simp: callStep_def setMatches_def setWorkerMatches_def setVacancyMatches_def
      writeMatches_def redis_setex_def lockEntry_def cacheEntry_def cacheKey_def CACHE_TTL_def Let_def)

lemma redis_get_lockEntry:
  "redis_get w (''lock:'' @ cacheKey s i) =
     (case lockEntry s i w of None \<Rightarrow> None
      | Some (v, expiresAt) \<Rightarrow> if clock w < expiresAt then Some v else None)"
  by (simp add: redis_get_def lockEntry_def)

lemma callStep_lockOwner: "lockOwner (snd (callStep w c)) = lockOwner c"
  by (cases "pc c") (auto simp: callStep_def split: option.splits prod.splits)

lemma callStep_fetcher: "fetcher (snd (callStep w c)) = fetcher c"
  by (cases "pc c") (auto simp: callStep_def split: option.splits prod.splits)

lemma callStep_lock_cases:
  assumes "subject c = s" "subjectId c = i"
  shows "(\<exists>n. pc c = AcquireLock n \<and> redis_get w (''lock:'' @ cacheKey s i) = None \<and>
              pc (snd (callStep w c)) = DoubleCheck \<and>
              lockEntry s i (fst (callStep w c)) = Some (RString (lockOwner c), clock w + 10000))
       \<or> ((\<exists>r. pc c = ReleaseLock r) \<and> \<not> inCritical (snd (callStep w c)))
       \<or> ((inCritical (snd (callStep w c)) \<longrightarrow> inCritical c) \<and>
           lockEntry s i (fst (callStep w c)) = lockEntry s i w)"
proof (cases "pc c")
  case (AcquireLock n)
  from step_acquire [OF AcquireLock assms, of w] show ?thesis
    using AcquireLock by (cases "redis_get w (''lock:'' @ cacheKey s i) = None") (auto simp: inCritical_def)
next
  case (ReleaseLock r)
  from step_release [OF ReleaseLock assms, of w] show ?thesis
    using ReleaseLock by (simp add: inCritical_def)
next
  case (SetMatches ms)
  from step_set [OF SetMatches assms, of w] show ?thesis
    using SetMatches by (simp add: inCritical_def)
qed (auto simp: callStep_def inCritical_def loopHead_def split: option.splits)

lemma systemStep_Run:
  assumes "i < length (calls sys)"
  shows "world (systemStep sys (Run i)) = fst (callStep (world sys) (calls sys ! i))"
    and "calls (systemStep sys (Run i)) = (calls sys)[i := snd (callStep (world sys) (calls sys ! i))]"
  using assms by (simp_all add: systemStep_def split: prod.splits)

lemma systemStep_Run_out: "\<not> i < length (calls sys) \<Longrightarrow> systemStep sys (Run i) = sys"
  by (simp add: systemStep_def)

lemma systemStep_Tick:
  "world (systemStep sys (Tick d)) = (world sys) \<lparr> clock := clock (world sys) + d \<rparr>"
  "calls (systemStep sys (Tick d)) = calls sys"
  by (simp_all add: systemStep_def)

lemma mutex_step:
  assumes A: "mutexInv s i c0 sys"
    and clk: "clock (world (systemStep sys e)) < c0 + 10000"
  shows "mutexInv s i c0 (systemStep sys e)"
proof (cases e)
  case (Tick d)
  show ?thesis
    using A clk unfolding mutexInv_def Tick systemStep_Tick
    by (auto simp: lockEntry_def)
next
  case (Run x)
  show ?thesis
  proof (cases "x < length (calls sys)")
    case False
    then show ?thesis using A Run by (simp add: systemStep_Run_out)
  next
    case True
    define cs where "cs = calls sys"
    define w where "w = world sys"
    define c where "c = cs ! x"
    define c' where "c' = snd (callStep w c)"
    define w' where "w' = fst (callStep w c)"
    have x: "x < length cs" using True by (simp add: cs_def)
    have ws: "world (systemStep sys e) = w'" and css: "calls (systemStep sys e) = cs[x := c']"
      using systemStep_Run [OF True] by (simp_all add: Run w'_def c'_def c_def cs_def w_def)
    have clock': "clock w' = clock w" by (simp add: w'_def callStep_clock)
    have c0: "c0 \<le> clock w" "clock w < c0 + 10000"
      and keys: "\<And>k. k < length cs \<Longrightarrow> subject (cs ! k) = s \<and> subjectId (cs ! k) = i"
      and mutex: "\<And>j k. j < length cs \<Longrightarrow> k < length cs \<Longrightarrow> inCritical (cs ! j) \<Longrightarrow>
                     inCritical (cs ! k) \<Longrightarrow> j = k"
      and held: "\<And>k. k < length cs \<Longrightarrow> inCritical (cs ! k) \<Longrightarrow>
                     \<exists>exp. lockEntry s i w = Some (RString (lockOwner (cs ! k)), exp) \<and> c0 + 10000 \<le> exp"
      using A unfolding mutexInv_def cs_def w_def by blast+
    have ck: "subject c = s" "subjectId c = i" using keys [OF x] by (simp_all add: c_def)
    have keys': "subject c' = s \<and> subjectId c' = i"
      using callStep_keys [of w c] ck by (simp add: c'_def)
    have owner': "lockOwner c' = lockOwner c" by (simp add: c'_def callStep_lockOwner)
    have nth: "\<And>k. k < length cs \<Longrightarrow> cs[x := c'] ! k = (if k = x then c' else cs ! k)"
      using x by (simp add: nth_list_update)
    from callStep_lock_cases [OF ck, of w]
    consider
      (acquire) n where "pc c = AcquireLock n" "redis_get w (''lock:'' @ cacheKey s i) = None"
        "pc c' = DoubleCheck" "lockEntry s i w' = Some (RString (lockOwner c), clock w + 10000)"
      | (release) r where "pc c = ReleaseLock r" "\<not> inCritical c'"
      | (other) "inCritical c' \<longrightarrow> inCritical c" "lockEntry s i w' = lockEntry s i w"
      unfolding c'_def w'_def by blast
    then have
      "(\<forall>j<length cs. \<forall>k<length cs.
          inCritical (cs[x := c'] ! j) \<and> inCritical (cs[x := c'] ! k) \<longrightarrow> j = k) \<and>
       (\<forall>k<length cs. inCritical (cs[x := c'] ! k) \<longrightarrow>
          (\<exists>exp. lockEntry s i w' = Some (RString (lockOwner (cs[x := c'] ! k)), exp) \<and>
                 c0 + 10000 \<le> exp))"
    proof cases
      case acquire
      have free: "\<not> inCritical (cs ! k)" if "k < length cs" for k
      proof
        assume "inCritical (cs ! k)"
        from held [OF that this] obtain exp where
          "lockEntry s i w = Some (RString (lockOwner (cs ! k)), exp)" "c0 + 10000 \<le> exp" by blast
        then have "redis_get w (''lock:'' @ cacheKey s i) = Some (RString (lockOwner (cs ! k)))"
          using c0 unfolding redis_get_lockEntry by simp
        then show False using acquire(2) by simp
      qed
      show ?thesis
        using free acquire(4) owner' c0 by (auto simp: nth)
    next
      case release
      have crit: "inCritical c" using release(1) by (simp add: inCritical_def)
      have "\<not> inCritical (cs ! k)" if "k < length cs" "k \<noteq> x" for k
        using mutex [OF that(1) x] crit that(2) by (auto simp: c_def)
      then show ?thesis using release(2) by (auto simp: nth)
    next
      case other
      have a: "inCritical (cs[x := c'] ! k) \<Longrightarrow> inCritical (cs ! k)" if "k < length cs" for k
        using other(1) that by (cases "k = x") (auto simp: nth c_def)
      have b: "lockOwner (cs[x := c'] ! k) = lockOwner (cs ! k)" if "k < length cs" for k
        using owner' that by (cases "k = x") (auto simp: nth c_def)
      show ?thesis
        unfolding other(2) using a b mutex held by (metis (no_types, lifting))
    qed
    moreover have "\<forall>k<length cs. subject (cs[x := c'] ! k) = s \<and> subjectId (cs[x := c'] ! k) = i"
      using keys keys' by (auto simp: nth)
    ultimately show ?thesis
      unfolding mutexInv_def ws css using c0 clock' by simp
  qed
qed

lemma readMatches_cacheEntry:
  "readMatches w (cacheKey s i) =
     (case cacheEntry s i w of
        Some (RJson l, expiresAt) \<Rightarrow> if clock w < expiresAt then Some l else None
      | _ \<Rightarrow> None)"
  by (simp add: readMatches_def redis_get_def cacheEntry_def
      split: option.splits prod.splits RedisValue.splits)

lemma filled_readMatches:
  "filled s i c0 w \<Longrightarrow> clock w < c0 + 10000 \<Longrightarrow> readMatches w (cacheKey s i) \<noteq> None"
  by (auto simp: filled_def readMatches_cacheEntry split: option.splits prod.splits RedisValue.splits)

lemma callStep_lockedFetches:
  "lockedFetches (snd (callStep w c)) = (if pc c = Fetch then lockedFetches c + 1 else lockedFetches c)"
  by (cases "pc c") (auto simp: callStep_def split: option.splits prod.splits)

lemma callStep_fallbackFetches:
  "fallbackFetches (snd (callStep w c)) =
     (if pc c = Fallback then fallbackFetches c + 1 else fallbackFetches c)"
  by (cases "pc c") (auto simp: callStep_def split: option.splits prod.splits)

lemma callStep_to_SetMatches:
  "pc (snd (callStep w c)) = SetMatches ms \<Longrightarrow> pc c = Fetch \<and> ms = fetcher c w"
  by (cases "pc c") (auto simp: callStep_def loopHead_def split: option.splits prod.splits if_splits)

lemma callStep_to_Fetch:
  "pc (snd (callStep w c)) = Fetch \<Longrightarrow>
     pc c = DoubleCheck \<and> readMatches w (cacheKey (subject c) (subjectId c)) = None"
  by (cases "pc c")
     (auto simp: callStep_def loopHead_def getMatches_cacheKey split: option.splits prod.splits if_splits)

lemma callStep_cacheEntry:
  assumes "subject c = s" "subjectId c = i" "\<forall>ms. pc c \<noteq> SetMatches ms"
  shows "cacheEntry s i (fst (callStep w c)) = cacheEntry s i w"
proof (cases "pc c")
  case (AcquireLock n)
  from step_acquire [OF AcquireLock assms(1,2), of w] show ?thesis
    by (cases "redis_get w (''lock:'' @ cacheKey s i) = None") auto
next
  case (ReleaseLock r)
  from step_release [OF ReleaseLock assms(1,2), of w] show ?thesis by simp
next
  case (SetMatches ms)
  then show ?thesis using assms(3) by simp
qed (simp_all add: step_other)

lemma sum_list_map_update:
  fixes f :: "'a \<Rightarrow> nat"
  assumes "x < length cs"
  shows "sum_list (map f (cs[x := y])) + f (cs ! x) = sum_list (map f cs) + f y"
  using assms
proof (induction cs arbitrary: x)
  case Nil
  then show ?case by simp
next
  case (Cons a cs)
  then show ?case by (cases x) (simp_all add: add.assoc add.left_commute)
qed

lemma readMatches_later:
  "readMatches w (cacheKey s i) = None \<Longrightarrow>
   readMatches (w \<lparr> clock := clock w + d \<rparr>) (cacheKey s i) = None"
  by (auto simp: readMatches_cacheEntry cacheEntry_def
      split: option.splits prod.splits RedisValue.splits if_splits)

lemma fetch_step:
  assumes A: "mutexInv s i c0 sys"
    and B: "fetchInv s i c0 sys"
    and clk: "clock (world (systemStep sys e)) < c0 + 10000"
  shows "fetchInv s i c0 (systemStep sys e)"
proof (cases e)
  case (Tick d)
  have "filled s i c0 ((world sys) \<lparr> clock := clock (world sys) + d \<rparr>) = filled s i c0 (world sys)"
    by (simp add: filled_def cacheEntry_def)
  then show ?thesis
    using B unfolding fetchInv_def Tick systemStep_Tick lockedFetchCount_def
    by (auto simp: readMatches_later)
next
  case (Run x)
  show ?thesis
  proof (cases "x < length (calls sys)")
    case False
    then show ?thesis using B Run by (simp add: systemStep_Run_out)
  next
    case True
    define cs where "cs = calls sys"
    define w where "w = world sys"
    define c where "c = cs ! x"
    define c' where "c' = snd (callStep w c)"
    define w' where "w' = fst (callStep w c)"
    define n where "n = lockedFetchCount sys"
    define n' where "n' = lockedFetchCount (systemStep sys e)"
    have x: "x < length cs" using True by (simp add: cs_def)
    have ws: "world (systemStep sys e) = w'" and css: "calls (systemStep sys e) = cs[x := c']"
      using systemStep_Run [OF True] by (simp_all add: Run w'_def c'_def c_def cs_def w_def)
    have clock': "clock w' = clock w" by (simp add: w'_def callStep_clock)
    have c0: "c0 \<le> clock w" "clock w < c0 + 10000"
      and keys: "\<And>k. k < length cs \<Longrightarrow> subject (cs ! k) = s \<and> subjectId (cs ! k) = i"
      and mutex: "\<And>j k. j < length cs \<Longrightarrow> k < length cs \<Longrightarrow> inCritical (cs ! j) \<Longrightarrow>
                     inCritical (cs ! k) \<Longrightarrow> j = k"
      using A unfolding mutexInv_def cs_def w_def by blast+
    have F0: "\<And>k v. k < length cs \<Longrightarrow> fetcher (cs ! k) v \<noteq> []"
      and F2: "filled s i c0 w \<or> readMatches w (cacheKey s i) = None"
      and F3: "\<And>k. k < length cs \<Longrightarrow> pc (cs ! k) = Fetch \<Longrightarrow>
                 readMatches w (cacheKey s i) = None \<and> n = 0"
      and F4: "\<And>k ms. k < length cs \<Longrightarrow> pc (cs ! k) = SetMatches ms \<Longrightarrow> ms \<noteq> []"
      and F5: "1 \<le> n \<Longrightarrow> filled s i c0 w \<or> (\<exists>k<length cs. \<exists>ms. pc (cs ! k) = SetMatches ms)"
      and F6: "n \<le> 1"
      using B unfolding fetchInv_def cs_def w_def n_def by simp_all
    have ck: "subject c = s" "subjectId c = i" using keys [OF x] by (simp_all add: c_def)
    have nth: "\<And>k. k < length cs \<Longrightarrow> cs[x := c'] ! k = (if k = x then c' else cs ! k)"
      using x by (simp add: nth_list_update)
    have fetcher': "fetcher c' = fetcher c" by (simp add: c'_def callStep_fetcher)
    have count: "n' + lockedFetches c = n + lockedFetches c'"
      unfolding n'_def n_def lockedFetchCount_def css cs_def [symmetric] c_def
      by (rule sum_list_map_update [OF x])
    have locked': "lockedFetches c' = (if pc c = Fetch then lockedFetches c + 1 else lockedFetches c)"
      by (simp add: c'_def callStep_lockedFetches)
    have alone: "k = x" if "k < length cs" "inCritical (cs ! k)" "inCritical c" for k
      using mutex [OF that(1) x that(2)] that(3) by (simp add: c_def)
    have G0: "\<forall>k<length cs. \<forall>v. fetcher (cs[x := c'] ! k) v \<noteq> []"
      using F0 fetcher' by (auto simp: nth c_def)
    have rest:
      "(filled s i c0 w' \<or> readMatches w' (cacheKey s i) = None) \<and>
       (\<forall>k<length cs. pc (cs[x := c'] ! k) = Fetch \<longrightarrow>
          readMatches w' (cacheKey s i) = None \<and> n' = 0) \<and>
       (\<forall>k<length cs. \<forall>ms. pc (cs[x := c'] ! k) = SetMatches ms \<longrightarrow> ms \<noteq> []) \<and>
       (1 \<le> n' \<longrightarrow> filled s i c0 w' \<or> (\<exists>k<length cs. \<exists>ms. pc (cs[x := c'] ! k) = SetMatches ms)) \<and>
       n' \<le> 1"
    proof -
      consider (fetch) "pc c = Fetch" | (set) ms where "pc c = SetMatches ms"
        | (other) "pc c \<noteq> Fetch" "\<forall>ms. pc c \<noteq> SetMatches ms" by blast
      then show ?thesis
      proof cases
        case fetch
        have crit: "inCritical c" using fetch by (simp add: inCritical_def)
        have w': "w' = w" by (simp add: w'_def step_other fetch)
        have pc': "pc c' = SetMatches (fetcher c w)"
          by (simp add: c'_def callStep_def fetch)
        have n0: "n = 0" and none: "readMatches w (cacheKey s i) = None"
          using F3 [OF x] fetch by (simp_all add: c_def)
        have n1: "n' = 1" using count locked' fetch n0 by simp
        have noFetch: "pc (cs ! k) \<noteq> Fetch" if "k < length cs" "k \<noteq> x" for k
          using alone [OF that(1) _ crit] that(2) by (auto simp: inCritical_def)
        have "\<forall>k<length cs. pc (cs[x := c'] ! k) \<noteq> Fetch"
          using noFetch pc' by (auto simp: nth)
        moreover have "\<forall>k<length cs. \<forall>ms. pc (cs[x := c'] ! k) = SetMatches ms \<longrightarrow> ms \<noteq> []"
          using F4 F0 [OF x] pc' by (auto simp: nth c_def)
        moreover have "\<exists>k<length cs. \<exists>ms. pc (cs[x := c'] ! k) = SetMatches ms"
          using x pc' by (auto simp: nth)
        ultimately show ?thesis using F2 n1 w' by simp
      next
        case set
        have crit: "inCritical c" using set by (simp add: inCritical_def)
        have ms: "ms \<noteq> []" using F4 [OF x] set by (simp add: c_def)
        from step_set [OF set ck, of w] ms
        have pc': "pc c' = ReleaseLock ms"
          and entry: "cacheEntry s i w' =
            Some (RJson (map (\<lambda>m. m \<lparr> cachedAt := clock w \<rparr>)
                           (take CACHE_LIMIT (sort_key (\<lambda>m. - totalScore m) ms))), clock w + 600000)"
          by (simp_all add: c'_def w'_def)
        have fill: "filled s i c0 w'" using entry c0 by (simp add: filled_def)
        have nn: "n' = n" using count locked' set by simp
        have noFetch: "pc (cs ! k) \<noteq> Fetch" if "k < length cs" "k \<noteq> x" for k
          using alone [OF that(1) _ crit] that(2) by (auto simp: inCritical_def)
        have "\<forall>k<length cs. pc (cs[x := c'] ! k) \<noteq> Fetch"
          using noFetch pc' by (auto simp: nth)
        moreover have "\<forall>k<length cs. \<forall>ms. pc (cs[x := c'] ! k) = SetMatches ms \<longrightarrow> ms \<noteq> []"
          using F4 pc' by (auto simp: nth)
        ultimately show ?thesis using fill nn F6 by simp
      next
        case other
        have entry: "cacheEntry s i w' = cacheEntry s i w"
          unfolding w'_def by (rule callStep_cacheEntry [OF ck other(2)])
        have read: "readMatches w' (cacheKey s i) = readMatches w (cacheKey s i)"
          unfolding readMatches_cacheEntry entry clock' ..
        have fill: "filled s i c0 w' = filled s i c0 w" by (simp add: filled_def entry)
        have nn: "n' = n" using count locked' other(1) by simp
        have noSet: "pc c' \<noteq> SetMatches ms" for ms
          using callStep_to_SetMatches [of w c ms] other(1) by (auto simp: c'_def)
        have quiet: "n = 0" if "readMatches w (cacheKey s i) = None" "inCritical c"
        proof (rule ccontr)
          assume "n \<noteq> 0"
          then have "filled s i c0 w \<or> (\<exists>k<length cs. \<exists>ms. pc (cs ! k) = SetMatches ms)"
            using F5 by simp
          then show False
          proof
            assume "filled s i c0 w"
            from filled_readMatches [OF this c0(2)] that(1) show False by simp
          next
            assume "\<exists>k<length cs. \<exists>ms. pc (cs ! k) = SetMatches ms"
            then obtain k ms where k: "k < length cs" "pc (cs ! k) = SetMatches ms" by blast
            then have "k = x" using alone [OF k(1) _ that(2)] by (simp add: inCritical_def)
            then show False using k(2) other(2) by (simp add: c_def)
          qed
        qed
        have G3: "readMatches w (cacheKey s i) = None \<and> n = 0"
          if "k < length cs" "pc (cs[x := c'] ! k) = Fetch" for k
        proof (cases "k = x")
          case True
          then have "pc c' = Fetch" using that by (simp add: nth)
          from callStep_to_Fetch [OF this [unfolded c'_def]]
          have "pc c = DoubleCheck" "readMatches w (cacheKey s i) = None" using ck by simp_all
          then show ?thesis using quiet by (simp add: inCritical_def)
        next
          case False
          then show ?thesis using that F3 [of k] by (simp add: nth)
        qed
        have G4: "ms \<noteq> []" if "k < length cs" "pc (cs[x := c'] ! k) = SetMatches ms" for k ms
          using that F4 [of k ms] noSet by (cases "k = x") (simp_all add: nth)
        have G5: "filled s i c0 w \<or> (\<exists>k<length cs. \<exists>ms. pc (cs[x := c'] ! k) = SetMatches ms)"
          if "1 \<le> n"
        proof -
          from F5 [OF that] show ?thesis
          proof
            assume "filled s i c0 w" then show ?thesis by simp
          next
            assume "\<exists>k<length cs. \<exists>ms. pc (cs ! k) = SetMatches ms"
            then obtain k ms where k: "k < length cs" "pc (cs ! k) = SetMatches ms" by blast
            then have "k \<noteq> x" using other(2) by (auto simp: c_def)
            then have "pc (cs[x := c'] ! k) = SetMatches ms" using k by (simp add: nth)
            then show ?thesis using k(1) by blast
          qed
        qed
        show ?thesis
          unfolding read fill nn using F2 F6 G3 G4 G5 by blast
      qed
    qed
    show ?thesis
      unfolding fetchInv_def ws css n'_def [symmetric] using G0 rest by simp
  qed
qed

lemma callStep_held:
  assumes "subject c = s" "subjectId c = i" "pc c \<noteq> Fetch"
    and "heldList (snd (callStep w c)) = Some l" "fallbackFetches (snd (callStep w c)) = 0"
  shows "(heldList c = Some l \<and> fallbackFetches c = 0) \<or> readMatches w (cacheKey s i) = Some l"
  using assms
  by (cases "pc c")
     (auto simp: callStep_def heldList_def loopHead_def getMatches_cacheKey
           split: option.splits prod.splits if_splits)

lemma readMatches_earlier:
  "readMatches (w \<lparr> clock := clock w + d \<rparr>) (cacheKey s i) = Some l \<Longrightarrow>
   readMatches w (cacheKey s i) = Some l"
  by (auto simp: readMatches_cacheEntry cacheEntry_def
      split: option.splits prod.splits RedisValue.splits if_splits)

lemma inPlay_Tick: "inPlay s i (systemStep sys (Tick d)) l \<Longrightarrow> inPlay s i sys l"
  unfolding inPlay_def systemStep_Tick by (auto dest: readMatches_earlier)

lemma inPlay_Run:
  assumes x: "x < length (calls sys)"
    and keys: "subject (calls sys ! x) = s" "subjectId (calls sys ! x) = i"
    and quiet: "pc (calls sys ! x) \<noteq> Fetch"
    and after: "inPlay s i (systemStep sys (Run x)) l"
  shows "inPlay s i sys l \<or>
         (\<exists>ms. pc (calls sys ! x) = SetMatches ms \<and>
               readMatches (fst (callStep (world sys) (calls sys ! x))) (cacheKey s i) = Some l)"
proof -
  define cs where "cs = calls sys"
  define w where "w = world sys"
  define c where "c = cs ! x"
  define c' where "c' = snd (callStep w c)"
  define w' where "w' = fst (callStep w c)"
  have x': "x < length cs" using x by (simp add: cs_def)
  have ws: "world (systemStep sys (Run x)) = w'" and css: "calls (systemStep sys (Run x)) = cs[x := c']"
    using systemStep_Run [OF x] by (simp_all add: w'_def c'_def c_def cs_def w_def)
  have ck: "subject c = s" "subjectId c = i" "pc c \<noteq> Fetch"
    using keys quiet by (simp_all add: c_def cs_def)
  have clock': "clock w' = clock w" by (simp add: w'_def callStep_clock)
  from after have "readMatches w' (cacheKey s i) = Some l \<or>
      (\<exists>k<length cs. heldList (cs[x := c'] ! k) = Some l \<and> fallbackFetches (cs[x := c'] ! k) = 0)"
    unfolding inPlay_def ws css by simp
  then show ?thesis
  proof
    assume read': "readMatches w' (cacheKey s i) = Some l"
    show ?thesis
    proof (cases "\<exists>ms. pc c = SetMatches ms")
      case True
      then show ?thesis using read' by (simp add: c_def cs_def w'_def w_def)
    next
      case False
      then have "cacheEntry s i w' = cacheEntry s i w"
        unfolding w'_def by (intro callStep_cacheEntry ck) simp
      then have "readMatches w' (cacheKey s i) = readMatches w (cacheKey s i)"
        unfolding readMatches_cacheEntry clock' by simp
      then show ?thesis using read' by (simp add: inPlay_def w_def)
    qed
  next
    assume "\<exists>k<length cs. heldList (cs[x := c'] ! k) = Some l \<and> fallbackFetches (cs[x := c'] ! k) = 0"
    then obtain k where k: "k < length cs" "heldList (cs[x := c'] ! k) = Some l"
      "fallbackFetches (cs[x := c'] ! k) = 0" by blast
    show ?thesis
    proof (cases "k = x")
      case False
      then have "heldList (cs ! k) = Some l \<and> fallbackFetches (cs ! k) = 0" using k by simp
      then show ?thesis using k(1) unfolding inPlay_def cs_def by blast
    next
      case True
      then have "heldList c' = Some l" "fallbackFetches c' = 0" using k by simp_all
      from callStep_held [OF ck this [unfolded c'_def]]
      have "(heldList c = Some l \<and> fallbackFetches c = 0) \<or> readMatches w (cacheKey s i) = Some l" .
      then show ?thesis using x' unfolding inPlay_def cs_def c_def w_def by blast
    qed
  qed
qed

lemma lockedFetchCount_Run:
  assumes "x < length (calls sys)"
  shows "lockedFetchCount (systemStep sys (Run x)) =
           (if pc (calls sys ! x) = Fetch then lockedFetchCount sys + 1 else lockedFetchCount sys)"
proof -
  have "lockedFetchCount (systemStep sys (Run x)) + lockedFetches (calls sys ! x) =
        lockedFetchCount sys + lockedFetches (snd (callStep (world sys) (calls sys ! x)))"
    unfolding lockedFetchCount_def systemStep_Run(2) [OF assms]
    by (rule sum_list_map_update [OF assms])
  then show ?thesis by (simp add: callStep_lockedFetches split: if_splits)
qed

lemma locked_le_count:
  "k < length (calls sys) \<Longrightarrow> lockedFetches (calls sys ! k) \<le> lockedFetchCount sys"
  unfolding lockedFetchCount_def by (rule member_le_sum_list) auto

lemma origin_step:
  assumes keys: "\<forall>k<length (calls sys). subject (calls sys ! k) = s \<and> subjectId (calls sys ! k) = i"
    and inv: "\<forall>c\<in>set (calls sys). callInvariant c"
    and O: "originInv s i sys"
  shows "originInv s i (systemStep sys e)"
proof (cases e)
  case (Tick d)
  have "lockedFetchCount (systemStep sys (Tick d)) = lockedFetchCount sys"
    by (simp add: lockedFetchCount_def systemStep_Tick)
  then show ?thesis using O unfolding originInv_def Tick by (auto dest: inPlay_Tick)
next
  case (Run x)
  show ?thesis
  proof (cases "x < length (calls sys)")
    case False
    then show ?thesis using O Run by (simp add: systemStep_Run_out)
  next
    case True
    note count = lockedFetchCount_Run [OF True]
    have ck: "subject (calls sys ! x) = s" "subjectId (calls sys ! x) = i" using keys True by simp_all
    have cinv: "callInvariant (calls sys ! x)" using inv True by simp
    show ?thesis
    proof (cases "pc (calls sys ! x) = Fetch")
      case True
      then show ?thesis unfolding originInv_def Run count by simp
    next
      case False
      have "1 \<le> lockedFetchCount sys" if "inPlay s i (systemStep sys (Run x)) l" for l
      proof -
        from inPlay_Run [OF True ck False that] show ?thesis
        proof
          assume "inPlay s i sys l"
          then show ?thesis using O unfolding originInv_def by blast
        next
          assume "\<exists>ms. pc (calls sys ! x) = SetMatches ms \<and>
            readMatches (fst (callStep (world sys) (calls sys ! x))) (cacheKey s i) = Some l"
          then obtain ms where "pc (calls sys ! x) = SetMatches ms" by blast
          then have "lockedFetches (calls sys ! x) = 1" using cinv by (simp add: callInvariant_def)
          then show ?thesis using locked_le_count [OF True] by simp
        qed
      qed
      then show ?thesis unfolding originInv_def Run count using False by auto
    qed
  qed
qed

lemma forgetStamps_written:
  assumes "cacheReady ms"
  shows "forgetStamps (map (\<lambda>m. m \<lparr> cachedAt := t \<rparr>)
           (take CACHE_LIMIT (sort_key (\<lambda>m. - totalScore m) ms))) = forgetStamps ms"
proof -
  have "sort_key (\<lambda>m. - totalScore m) ms = ms"
    using assms by (intro sort_key_id_if_sorted) (simp add: cacheReady_def)
  moreover have "take CACHE_LIMIT ms = ms" using assms by (simp add: cacheReady_def)
  ultimately show ?thesis by (simp add: forgetStamps_def)
qed

lemma agree_step:
  assumes A: "mutexInv s i c0 sys"
    and B: "fetchInv s i c0 sys"
    and inv: "\<forall>c\<in>set (calls sys). callInvariant c"
    and O: "originInv s i sys"
    and G: "agreeInv s i sys"
  shows "agreeInv s i (systemStep sys e)"
proof (cases e)
  case (Tick d)
  have "forgetStamps a = forgetStamps b"
    if "inPlay s i (systemStep sys (Tick d)) a" "inPlay s i (systemStep sys (Tick d)) b" for a b
  proof -
    have "inPlay s i sys a" "inPlay s i sys b" using that by (auto dest: inPlay_Tick)
    then show ?thesis using G unfolding agreeInv_def by blast
  qed
  moreover have "\<forall>k<length (calls sys). \<forall>w. cacheReady (fetcher (calls sys ! k) w)"
    "\<forall>k<length (calls sys). \<forall>ms. pc (calls sys ! k) = SetMatches ms \<longrightarrow> cacheReady ms"
    using G unfolding agreeInv_def by simp_all
  ultimately show ?thesis
    unfolding agreeInv_def Tick systemStep_Tick(2) by blast
next
  case (Run x)
  show ?thesis
  proof (cases "x < length (calls sys)")
    case False
    then show ?thesis using G Run by (simp add: systemStep_Run_out)
  next
    case True
    define cs where "cs = calls sys"
    define w where "w = world sys"
    define c where "c = cs ! x"
    define c' where "c' = snd (callStep w c)"
    define w' where "w' = fst (callStep w c)"
    have x: "x < length cs" using True by (simp add: cs_def)
    have ws: "world (systemStep sys e) = w'" and css: "calls (systemStep sys e) = cs[x := c']"
      using systemStep_Run [OF True] by (simp_all add: Run w'_def c'_def c_def cs_def w_def)
    have clock': "clock w' = clock w" by (simp add: w'_def callStep_clock)
    have keys: "\<And>k. k < length cs \<Longrightarrow> subject (cs ! k) = s \<and> subjectId (cs ! k) = i"
      using A unfolding mutexInv_def cs_def by simp
    have ck: "subject c = s" "subjectId c = i" using keys [OF x] by (simp_all add: c_def)
    have cinv: "callInvariant c" using inv x by (simp add: c_def cs_def)
    have G0: "\<And>k v. k < length cs \<Longrightarrow> cacheReady (fetcher (cs ! k) v)"
      and G1: "\<And>k ms. k < length cs \<Longrightarrow> pc (cs ! k) = SetMatches ms \<Longrightarrow> cacheReady ms"
      using G unfolding agreeInv_def cs_def by simp_all
    have G2: "\<And>a b. inPlay s i sys a \<Longrightarrow> inPlay s i sys b \<Longrightarrow> forgetStamps a = forgetStamps b"
      using G unfolding agreeInv_def by blast
    have nth: "\<And>k. k < length cs \<Longrightarrow> cs[x := c'] ! k = (if k = x then c' else cs ! k)"
      using x by (simp add: nth_list_update)
    have fetcher': "fetcher c' = fetcher c" by (simp add: c'_def callStep_fetcher)
    have H0: "\<forall>k<length cs. \<forall>v. cacheReady (fetcher (cs[x := c'] ! k) v)"
      using G0 fetcher' by (auto simp: nth c_def)
    have H1: "cacheReady ms" if "k < length cs" "pc (cs[x := c'] ! k) = SetMatches ms" for k ms
    proof (cases "k = x")
      case True
      then have "pc c' = SetMatches ms" using that by (simp add: nth)
      from callStep_to_SetMatches [OF this [unfolded c'_def]] show ?thesis
        using G0 [OF x] by (simp add: c_def)
    next
      case False
      then show ?thesis using that G1 [of k ms] by (simp add: nth)
    qed
    have H2: "forgetStamps a = forgetStamps b"
      if a: "inPlay s i (systemStep sys e) a" and b: "inPlay s i (systemStep sys e) b" for a b
    proof (cases "pc c = Fetch")
      case True
      have "readMatches w (cacheKey s i) = None" "lockedFetchCount sys = 0"
        using B x True unfolding fetchInv_def cs_def [symmetric] w_def [symmetric] c_def by simp_all
      then have none: "\<not> inPlay s i sys l" for l using O unfolding originInv_def by auto
      have w': "w' = w" by (simp add: w'_def step_other True)
      have pc': "pc c' = SetMatches (fetcher c w)" by (simp add: c'_def callStep_def True)
      have only: "l = fetcher c w" if "inPlay s i (systemStep sys e) l" for l
      proof -
        from that have "readMatches w (cacheKey s i) = Some l \<or>
          (\<exists>k<length cs. heldList (cs[x := c'] ! k) = Some l \<and> fallbackFetches (cs[x := c'] ! k) = 0)"
          unfolding inPlay_def ws css w' by simp
        then show ?thesis
        proof
          assume "readMatches w (cacheKey s i) = Some l"
          then show ?thesis using none [of l] by (simp add: inPlay_def w_def)
        next
          assume "\<exists>k<length cs. heldList (cs[x := c'] ! k) = Some l \<and>
                    fallbackFetches (cs[x := c'] ! k) = 0"
          then obtain k where k: "k < length cs" "heldList (cs[x := c'] ! k) = Some l"
            "fallbackFetches (cs[x := c'] ! k) = 0" by blast
          show ?thesis
          proof (cases "k = x")
            case True
            then show ?thesis using k pc' by (simp add: nth heldList_def)
          next
            case False
            then have "inPlay s i sys l" using k unfolding inPlay_def cs_def by auto
            then show ?thesis using none by simp
          qed
        qed
      qed
      show ?thesis using only [OF a] only [OF b] by simp
    next
      case False
      have rep: "\<exists>l0. inPlay s i sys l0 \<and> forgetStamps l0 = forgetStamps l"
        if "inPlay s i (systemStep sys e) l" for l
      proof -
        from inPlay_Run [OF True _ _ _ that [unfolded Run]] ck False
        have "inPlay s i sys l \<or>
              (\<exists>ms. pc c = SetMatches ms \<and> readMatches w' (cacheKey s i) = Some l)"
          by (simp add: c_def cs_def w'_def w_def)
        then show ?thesis
        proof
          assume "inPlay s i sys l" then show ?thesis by blast
        next
          assume "\<exists>ms. pc c = SetMatches ms \<and> readMatches w' (cacheKey s i) = Some l"
          then obtain ms where ms: "pc c = SetMatches ms" "readMatches w' (cacheKey s i) = Some l"
            by blast
          have ready: "cacheReady ms" using G1 [OF x] ms(1) by (simp add: c_def)
          then have "ms \<noteq> []" by (simp add: cacheReady_def)
          with step_set [OF ms(1) ck, of w]
          have "cacheEntry s i w' =
            Some (RJson (map (\<lambda>m. m \<lparr> cachedAt := clock w \<rparr>)
                           (take CACHE_LIMIT (sort_key (\<lambda>m. - totalScore m) ms))), clock w + 600000)"
            by (simp add: w'_def)
          then have "l = map (\<lambda>m. m \<lparr> cachedAt := clock w \<rparr>)
                           (take CACHE_LIMIT (sort_key (\<lambda>m. - totalScore m) ms))"
            using ms(2) by (simp add: readMatches_cacheEntry clock')
          then have "forgetStamps l = forgetStamps ms" using forgetStamps_written [OF ready] by simp
          moreover have "inPlay s i sys ms"
          proof -
            have "heldList c = Some ms" using ms(1) by (simp add: heldList_def)
            moreover have "fallbackFetches c = 0" using cinv ms(1) by (simp add: callInvariant_def)
            ultimately show ?thesis using x unfolding inPlay_def cs_def [symmetric] c_def by blast
          qed
          ultimately show ?thesis by auto
        qed
      qed
      from rep [OF a] rep [OF b] G2 show ?thesis by metis
    qed
    show ?thesis
      unfolding agreeInv_def css
    proof (intro conjI)
      show "\<forall>k<length (cs[x := c']). \<forall>v. cacheReady (fetcher (cs[x := c'] ! k) v)"
        using H0 by simp
      show "\<forall>k<length (cs[x := c']). \<forall>ms. pc (cs[x := c'] ! k) = SetMatches ms \<longrightarrow> cacheReady ms"
        using H1 by simp
      show "\<forall>a b. inPlay s i (systemStep sys e) a \<and> inPlay s i (systemStep sys e) b \<longrightarrow>
                  forgetStamps a = forgetStamps b"
        using H2 by blast
    qed
  qed
qed

lemma systemStep_clock:
  "clock (world (systemStep sys e)) = clock (world sys) + (case e of Tick d \<Rightarrow> d | Run x \<Rightarrow> 0)"
proof (cases e)
  case (Tick d)
  then show ?thesis by (simp add: systemStep_Tick)
next
  case (Run x)
  then show ?thesis
    by (cases "x < length (calls sys)") (simp_all add: systemStep_Run systemStep_Run_out callStep_clock)
qed

lemma elapsed_snoc:
  "elapsed (schedule @ [e]) = elapsed schedule + (case e of Tick d \<Rightarrow> d | Run x \<Rightarrow> 0)"
  by (simp add: elapsed_def)

lemma run_clock: "clock (world (run sys schedule)) = clock (world sys) + elapsed schedule"
proof (induction schedule rule: rev_induct)
  case Nil
  then show ?case by (simp add: run_def elapsed_def)
next
  case (snoc e schedule)
  then show ?case by (simp add: run_snoc systemStep_clock elapsed_snoc)
qed

lemma notStarted_count:
  assumes "\<forall>c\<in>set (calls sys). notStarted c"
  shows "lockedFetchCount sys = 0"
  using assms by (simp add: lockedFetchCount_def notStarted_def)

lemma initially_mutexInv:
  assumes "\<forall>c\<in>set (calls sys). notStarted c"
    and "\<forall>c\<in>set (calls sys). subject c = s \<and> subjectId c = i"
  shows "mutexInv s i (clock (world sys)) sys"
  using assms by (simp add: mutexInv_def notStarted_def inCritical_def)

lemma initially_fetchInv:
  assumes "\<forall>c\<in>set (calls sys). notStarted c"
    and "getMatches s (world sys) i = None"
    and "\<forall>c\<in>set (calls sys). \<forall>w. fetcher c w \<noteq> []"
  shows "fetchInv s i c0 sys"
  using assms notStarted_count [OF assms(1)]
  by (simp add: fetchInv_def notStarted_def getMatches_cacheKey)

lemma initially_originInv:
  assumes "\<forall>c\<in>set (calls sys). notStarted c"
    and "getMatches s (world sys) i = None"
  shows "originInv s i sys"
  using assms
  by (auto simp: originInv_def inPlay_def notStarted_def heldList_def getMatches_cacheKey
      all_set_conv_all_nth)

lemma run_exclusive:
  assumes started: "\<forall>c\<in>set (calls sys). notStarted c"
    and keys: "\<forall>c\<in>set (calls sys). subject c = s \<and> subjectId c = i"
    and empty: "getMatches s (world sys) i = None"
    and fetchers: "\<forall>c\<in>set (calls sys). \<forall>w. fetcher c w \<noteq> []"
    and lease: "elapsed schedule < 10000"
  shows "mutexInv s i (clock (world sys)) (run sys schedule) \<and>
         fetchInv s i (clock (world sys)) (run sys schedule) \<and>
         originInv s i (run sys schedule)"
  using lease
proof (induction schedule rule: rev_induct)
  case Nil
  show ?case
    unfolding run_def foldl_Nil
    using initially_mutexInv [OF started keys] initially_fetchInv [OF started empty fetchers]
      initially_originInv [OF started empty] by simp
next
  case (snoc e schedule)
  have before: "elapsed schedule < 10000" using snoc.prems by (simp add: elapsed_snoc)
  note IH = snoc.IH [OF before]
  have "clock (world (run sys (schedule @ [e]))) < clock (world sys) + 10000"
    using snoc.prems by (simp add: run_clock)
  then have clk: "clock (world (systemStep (run sys schedule) e)) < clock (world sys) + 10000"
    by (simp add: run_snoc)
  have inv: "\<forall>c\<in>set (calls (run sys schedule)). callInvariant c"
    using started by (intro run_invariant) (simp add: notStarted_invariant)
  have keys': "\<forall>k<length (calls (run sys schedule)).
      subject (calls (run sys schedule) ! k) = s \<and> subjectId (calls (run sys schedule) ! k) = i"
    using IH unfolding mutexInv_def by simp
  show ?case
    unfolding run_snoc
    using mutex_step [OF _ clk] fetch_step [OF _ _ clk] origin_step [OF keys' inv] IH by blast
qed

lemma run_agree:
  assumes started: "\<forall>c\<in>set (calls sys). notStarted c"
    and keys: "\<forall>c\<in>set (calls sys). subject c = s \<and> subjectId c = i"
    and empty: "getMatches s (world sys) i = None"
    and fetchers: "\<forall>c\<in>set (calls sys). \<forall>w. cacheReady (fetcher c w)"
    and lease: "elapsed schedule < 10000"
  shows "agreeInv s i (run sys schedule)"
  using lease
proof (induction schedule rule: rev_induct)
  case Nil
  show ?case
    unfolding run_def foldl_Nil
    using started empty fetchers
    by (auto simp: agreeInv_def inPlay_def notStarted_def heldList_def getMatches_cacheKey
        all_set_conv_all_nth)
next
  case (snoc e schedule)
  have before: "elapsed schedule < 10000" using snoc.prems by (simp add: elapsed_snoc)
  have nonEmpty: "\<forall>c\<in>set (calls sys). \<forall>w. fetcher c w \<noteq> []"
    using fetchers by (auto simp: cacheReady_def)
  from run_exclusive [OF started keys empty nonEmpty before]
  have A: "mutexInv s i (clock (world sys)) (run sys schedule)"
    and B: "fetchInv s i (clock (world sys)) (run sys schedule)"
    and O: "originInv s i (run sys schedule)" by simp_all
  have inv: "\<forall>c\<in>set (calls (run sys schedule)). callInvariant c"
    using started by (intro run_invariant) (simp add: notStarted_invariant)
  show ?case
    unfolding run_snoc by (rule agree_step [OF A B inv O snoc.IH [OF before]])
qed

lemma run_mutex:
  assumes started: "\<forall>c\<in>set (calls sys). notStarted c"
    and keys: "\<forall>c\<in>set (calls sys). subject c = s \<and> subjectId c = i"
    and lease: "elapsed schedule < 10000"
  shows "mutexInv s i (clock (world sys)) (run sys schedule)"
  using lease
proof (induction schedule rule: rev_induct)
  case Nil
  show ?case unfolding run_def foldl_Nil by (rule initially_mutexInv [OF started keys])
next
  case (snoc e schedule)
  have before: "elapsed schedule < 10000" using snoc.prems by (simp add: elapsed_snoc)
  have "clock (world (run sys (schedule @ [e]))) < clock (world sys) + 10000"
    using snoc.prems by (simp add: run_clock)
  then have clk: "clock (world (systemStep (run sys schedule) e)) < clock (world sys) + 10000"
    by (simp add: run_snoc)
  show ?case unfolding run_snoc by (rule mutex_step [OF snoc.IH [OF before] clk])
qed

lemma at_most_one:
  assumes "\<forall>j<length xs. \<forall>k<length xs. P (xs ! j) \<and> P (xs ! k) \<longrightarrow> j = k"
  shows "length (filter P xs) \<le> 1"
  using assms
proof (induction xs)
  case Nil
  then show ?case by simp
next
  case (Cons a xs)
  have tail: "\<forall>j<length xs. \<forall>k<length xs. P (xs ! j) \<and> P (xs ! k) \<longrightarrow> j = k"
  proof (intro allI impI)
    fix j k assume "j < length xs" "k < length xs" "P (xs ! j) \<and> P (xs ! k)"
    then have "Suc j = Suc k" using Cons.prems [rule_format, of "Suc j" "Suc k"] by simp
    then show "j = k" by simp
  qed
  show ?case
  proof (cases "P a")
    case False
    then show ?thesis using Cons.IH [OF tail] by simp
  next
    case True
    have "\<not> P (xs ! k)" if "k < length xs" for k
      using Cons.prems [rule_format, of 0 "Suc k"] True that by auto
    then have "filter P xs = []" by (auto simp: filter_empty_conv in_set_conv_nth)
    then show ?thesis using True by simp
  qed
qed

lemma invocations_split:
  "fetcherInvocations sys = lockedFetchCount sys + fallbackFetchCount sys"
  by (simp add: fetcherInvocations_def lockedFetchCount_def fallbackFetchCount_def sum_list_addf)

lemma fallback_le_count:
  "c \<in> set (calls sys) \<Longrightarrow> fallbackFetches c \<le> fallbackFetchCount sys"
  unfolding fallbackFetchCount_def by (rule member_le_sum_list) auto

lemma per_call_bounds:
  assumes "\<forall>c\<in>set (calls sys). notStarted c"
  shows "(\<forall>c\<in>set (calls (run sys schedule)). singleFlight c)
       \<and> fetcherInvocations (run sys schedule) \<le> length (calls sys)
       \<and> ((\<forall>c\<in>set (calls sys). getMatches (subject c) (world sys) (subjectId c) = None) \<and>
          (\<exists>c\<in>set (calls (run sys schedule)). hasReturned c)
          \<longrightarrow> 1 \<le> fetcherInvocations (run sys schedule))"
proof (intro conjI impI)
  have inv: "\<forall>c\<in>set (calls (run sys schedule)). callInvariant c"
    using assms by (intro run_invariant) (simp add: notStarted_invariant)
  then show sf: "\<forall>c\<in>set (calls (run sys schedule)). singleFlight c"
    by (simp add: callInvariant_singleFlight)
  from invocations_at_most_calls [OF sf]
  show "fetcherInvocations (run sys schedule) \<le> length (calls sys)"
    by (simp add: length_calls_run)
next
  assume a: "(\<forall>c\<in>set (calls sys). getMatches (subject c) (world sys) (subjectId c) = None) \<and>
          (\<exists>c\<in>set (calls (run sys schedule)). hasReturned c)"
  then have "fetchedBeforeUse (run sys schedule)"
    using assms by (intro run_fetchedBeforeUse initially_fetchedBeforeUse) simp_all
  moreover from a obtain c where "c \<in> set (calls (run sys schedule))" "pastFetch c"
    by (auto simp: hasReturned_def pastFetch_def split: Pc.splits)
  ultimately obtain y where "y \<in> set (calls (run sys schedule))" "hasFetched y"
    unfolding fetchedBeforeUse_def by (auto split: if_splits)
  then show "1 \<le> fetcherInvocations (run sys schedule)" by (rule fetched_counts)
qed

lemma returned_inPlay:
  assumes "c \<in> set (calls sys)" "pc c = Returned r" "fallbackFetches c = 0"
  shows "inPlay s i sys r"
proof -
  from assms(1) obtain k where "k < length (calls sys)" "calls sys ! k = c"
    by (auto simp: in_set_conv_nth)
  then show ?thesis using assms(2,3) unfolding inPlay_def by (auto simp: heldList_def)
qed

lemma exactly_once:
  assumes started: "\<forall>c\<in>set (calls sys). notStarted c"
    and keys: "\<forall>c\<in>set (calls sys). subject c = s \<and> subjectId c = i"
    and empty: "getMatches s (world sys) i = None"
    and fetchers: "\<forall>c\<in>set (calls sys). \<forall>w. fetcher c w \<noteq> []"
    and lease: "elapsed schedule < 10000"
  shows "lockedFetchCount (run sys schedule) \<le> 1"
    and "fetcherInvocations (run sys schedule) \<le> 1 + fallbackFetchCount (run sys schedule)"
    and "fallbackFetchCount (run sys schedule) = 0 \<Longrightarrow>
         \<exists>c\<in>set (calls (run sys schedule)). hasReturned c \<Longrightarrow>
         fetcherInvocations (run sys schedule) = 1"
proof -
  from run_exclusive [OF started keys empty fetchers lease]
  have B: "fetchInv s i (clock (world sys)) (run sys schedule)"
    and O: "originInv s i (run sys schedule)" by simp_all
  show one: "lockedFetchCount (run sys schedule) \<le> 1" using B by (simp add: fetchInv_def)
  then show "fetcherInvocations (run sys schedule) \<le> 1 + fallbackFetchCount (run sys schedule)"
    by (simp add: invocations_split)
  assume none: "fallbackFetchCount (run sys schedule) = 0"
    and "\<exists>c\<in>set (calls (run sys schedule)). hasReturned c"
  then obtain c where c0: "c \<in> set (calls (run sys schedule))" "hasReturned c" by blast
  then obtain r where "pc c = Returned r" by (cases "pc c") (simp_all add: hasReturned_def)
  with c0 have c: "c \<in> set (calls (run sys schedule))" "pc c = Returned r" by simp_all
  have "fallbackFetches c = 0" using fallback_le_count [OF c(1)] none by simp
  from returned_inPlay [OF c this] have "inPlay s i (run sys schedule) r" .
  then have "1 \<le> lockedFetchCount (run sys schedule)" using O unfolding originInv_def by blast
  then show "fetcherInvocations (run sys schedule) = 1" using one none by (simp add: invocations_split)
qed

lemma cached_copy_no_fallback:
  "fallbackFetchCount (run (twoCalls stampingFetcher) cachedCopySchedule) = 0 \<and>
   elapsed cachedCopySchedule = 50"
  by (simp add: machine_defs twoCalls_def stampingFetcher_def cachedCopySchedule_def
      cachedScore_def fallbackFetchCount_def elapsed_def)

lemma cached_copy_lists:
  "map pc (calls (run (twoCalls stampingFetcher) cachedCopySchedule)) =
     [Returned [(cachedScore ''w1'' ''v1'' 80) \<lparr> cachedAt := 0 \<rparr>],
      Returned [(cachedScore ''w1'' ''v1'' 80) \<lparr> cachedAt := 1 \<rparr>]]"
  by (simp add: machine_defs twoCalls_def stampingFetcher_def cachedCopySchedule_def
      cachedScore_def)

text \<open>
  C8 (amended). For any number of concurrent calls of \<open>getOrSetWorkerCache\<close> or
  \<open>getOrSetVacancyCache\<close>, under every interleaving of their operations and every
  passage of time: each call invokes its fetcher at most once; an invocation under the
  lock happens only after that call acquired the lock, at most once per acquisition; an
  invocation in the fallback happens only after five failed acquisitions by a call that
  never held the lock. So \<open>N\<close> calls invoke the fetcher at most \<open>N\<close> times in all; and
  when the cache is empty at the start and some call has returned, at least once.

  For calls for the same key, while less than one lock lease (10 seconds) has passed
  since the start: at most one call stands between its successful lock acquisition and
  its release, since \<open>SET ... NX\<close> refuses every other call. If moreover the key is
  missing at the start and the fetcher never returns an empty list: at most one call
  fetches under the lock, so the fetcher runs at most once more than the number of
  fetches in the fallback; and when no call fell back and some call has returned, the
  fetcher has run exactly once. If the fetched lists are moreover at most 50 long and
  in descending order of total score, the lists returned by the calls that did not fall
  back are equal up to \<open>cachedAt\<close>.
\<close>

theorem single_flight:
  assumes "\<forall>c\<in>set (calls sys). notStarted c"
  shows "(\<forall>c\<in>set (calls (run sys schedule)). singleFlight c)
       \<and> fetcherInvocations (run sys schedule) \<le> length (calls sys)
       \<and> ((\<forall>c\<in>set (calls sys). getMatches (subject c) (world sys) (subjectId c) = None) \<and>
          (\<exists>c\<in>set (calls (run sys schedule)). hasReturned c)
          \<longrightarrow> 1 \<le> fetcherInvocations (run sys schedule))
       \<and> ((\<forall>c\<in>set (calls sys). subject c = s \<and> subjectId c = i) \<and> elapsed schedule < 10000
          \<longrightarrow> length (filter inCritical (calls (run sys schedule))) \<le> 1
            \<and> (getMatches s (world sys) i = None \<and> (\<forall>c\<in>set (calls sys). \<forall>w. fetcher c w \<noteq> [])
               \<longrightarrow> lockedFetchCount (run sys schedule) \<le> 1
                 \<and> fetcherInvocations (run sys schedule) \<le> 1 + fallbackFetchCount (run sys schedule)
                 \<and> (fallbackFetchCount (run sys schedule) = 0 \<and>
                    (\<exists>c\<in>set (calls (run sys schedule)). hasReturned c)
                    \<longrightarrow> fetcherInvocations (run sys schedule) = 1)
                 \<and> ((\<forall>c\<in>set (calls sys). \<forall>w. cacheReady (fetcher c w))
                    \<longrightarrow> (\<forall>a\<in>set (calls (run sys schedule)). \<forall>b\<in>set (calls (run sys schedule)).
                          \<forall>x y. pc a = Returned x \<and> fallbackFetches a = 0 \<and>
                                pc b = Returned y \<and> fallbackFetches b = 0
                                \<longrightarrow> forgetStamps x = forgetStamps y))))"
proof -
  note started = assms
  have exclusive: "length (filter inCritical (calls (run sys schedule))) \<le> 1"
    if "\<forall>c\<in>set (calls sys). subject c = s \<and> subjectId c = i" "elapsed schedule < 10000"
  proof -
    from run_mutex [OF started that] show ?thesis
      unfolding mutexInv_def by (intro at_most_one) simp
  qed
  have agree: "forgetStamps x = forgetStamps y"
    if "\<forall>c\<in>set (calls sys). subject c = s \<and> subjectId c = i" "elapsed schedule < 10000"
      "getMatches s (world sys) i = None" "\<forall>c\<in>set (calls sys). \<forall>w. cacheReady (fetcher c w)"
      "a \<in> set (calls (run sys schedule))" "b \<in> set (calls (run sys schedule))"
      "pc a = Returned x" "fallbackFetches a = 0" "pc b = Returned y" "fallbackFetches b = 0"
    for a b x y
  proof -
    from run_agree [OF started that(1,3,4,2)]
    have "\<forall>a b. inPlay s i (run sys schedule) a \<and> inPlay s i (run sys schedule) b \<longrightarrow>
                forgetStamps a = forgetStamps b"
      unfolding agreeInv_def by blast
    then show ?thesis
      using returned_inPlay [OF that(5,7,8), of s i] returned_inPlay [OF that(6,9,10), of s i]
      by blast
  qed
  have counts:
    "lockedFetchCount (run sys schedule) \<le> 1
     \<and> fetcherInvocations (run sys schedule) \<le> 1 + fallbackFetchCount (run sys schedule)
     \<and> (fallbackFetchCount (run sys schedule) = 0 \<and>
        (\<exists>c\<in>set (calls (run sys schedule)). hasReturned c)
        \<longrightarrow> fetcherInvocations (run sys schedule) = 1)"
    if "\<forall>c\<in>set (calls sys). subject c = s \<and> subjectId c = i" "elapsed schedule < 10000"
      "getMatches s (world sys) i = None" "\<forall>c\<in>set (calls sys). \<forall>w. fetcher c w \<noteq> []"
    using exactly_once [OF started that(1,3,4,2)] by blast
  show ?thesis
  proof (intro conjI)
    show "\<forall>c\<in>set (calls (run sys schedule)). singleFlight c"
      "fetcherInvocations (run sys schedule) \<le> length (calls sys)"
      "(\<forall>c\<in>set (calls sys). getMatches (subject c) (world sys) (subjectId c) = None) \<and>
          (\<exists>c\<in>set (calls (run sys schedule)). hasReturned c)
          \<longrightarrow> 1 \<le> fetcherInvocations (run sys schedule)"
      using per_call_bounds [OF started, of schedule] by simp_all
    show "(\<forall>c\<in>set (calls sys). subject c = s \<and> subjectId c = i) \<and> elapsed schedule < 10000
          \<longrightarrow> length (filter inCritical (calls (run sys schedule))) \<le> 1
            \<and> (getMatches s (world sys) i = None \<and> (\<forall>c\<in>set (calls sys). \<forall>w. fetcher c w \<noteq> [])
               \<longrightarrow> lockedFetchCount (run sys schedule) \<le> 1
                 \<and> fetcherInvocations (run sys schedule) \<le> 1 + fallbackFetchCount (run sys schedule)
                 \<and> (fallbackFetchCount (run sys schedule) = 0 \<and>
                    (\<exists>c\<in>set (calls (run sys schedule)). hasReturned c)
                    \<longrightarrow> fetcherInvocations (run sys schedule) = 1)
                 \<and> ((\<forall>c\<in>set (calls sys). \<forall>w. cacheReady (fetcher c w))
                    \<longrightarrow> (\<forall>a\<in>set (calls (run sys schedule)). \<forall>b\<in>set (calls (run sys schedule)).
                          \<forall>x y. pc a = Returned x \<and> fallbackFetches a = 0 \<and>
                                pc b = Returned y \<and> fallbackFetches b = 0
                                \<longrightarrow> forgetStamps x = forgetStamps y)))"
    proof (intro impI conjI ballI allI; elim conjE)
      assume k: "\<forall>c\<in>set (calls sys). subject c = s \<and> subjectId c = i" "elapsed schedule < 10000"
      show "length (filter inCritical (calls (run sys schedule))) \<le> 1" by (rule exclusive [OF k])
      assume e: "getMatches s (world sys) i = None" "\<forall>c\<in>set (calls sys). \<forall>w. fetcher c w \<noteq> []"
      show "lockedFetchCount (run sys schedule) \<le> 1"
        "fetcherInvocations (run sys schedule) \<le> 1 + fallbackFetchCount (run sys schedule)"
        using counts [OF k e] by simp_all
      {
        assume "fallbackFetchCount (run sys schedule) = 0"
          "\<exists>c\<in>set (calls (run sys schedule)). hasReturned c"
        then show "fetcherInvocations (run sys schedule) = 1" using counts [OF k e] by simp
      }
      fix a b x y
      assume "\<forall>c\<in>set (calls sys). \<forall>w. cacheReady (fetcher c w)"
        "a \<in> set (calls (run sys schedule))" "b \<in> set (calls (run sys schedule))"
        "pc a = Returned x" "fallbackFetches a = 0" "pc b = Returned y" "fallbackFetches b = 0"
      then show "forgetStamps x = forgetStamps y" by (rule agree [OF k e(1)])
    qed
  qed
qed

theorem single_flight_witness:
  "fetcherInvocations (run (twoCalls stampingFetcher) cachedCopySchedule) = 1 \<and>
   length (filter inCritical (calls (run (twoCalls stampingFetcher) cachedCopySchedule))) \<le> 1 \<and>
   singleFlight (calls (run (twoCalls stampingFetcher) cachedCopySchedule) ! 0) \<and>
   singleFlight (calls (run (twoCalls stampingFetcher) cachedCopySchedule) ! 1) \<and>
   (\<exists>x y. pc (calls (run (twoCalls stampingFetcher) cachedCopySchedule) ! 0) = Returned x \<and>
          pc (calls (run (twoCalls stampingFetcher) cachedCopySchedule) ! 1) = Returned y \<and>
          x \<noteq> y \<and> forgetStamps x = forgetStamps y)"
proof -
  let ?sys = "twoCalls stampingFetcher"
  let ?end = "run ?sys cachedCopySchedule"
  have started: "\<forall>c\<in>set (calls ?sys). notStarted c"
    by (simp add: twoCalls_def getOrSetCache_def notStarted_def)
  have keys: "\<forall>c\<in>set (calls ?sys). subject c = VacancySubject \<and> subjectId c = ''v1''"
    by (simp add: twoCalls_def getOrSetCache_def)
  have empty: "getMatches VacancySubject (world ?sys) ''v1'' = None"
    by (simp add: twoCalls_def getMatches_def getVacancyMatches_def readMatches_def redis_get_def
        smallWorld_def)
  have empty': "\<forall>c\<in>set (calls ?sys). getMatches (subject c) (world ?sys) (subjectId c) = None"
    using keys empty by simp
  have ready: "\<forall>c\<in>set (calls ?sys). \<forall>w. cacheReady (fetcher c w)"
    by (simp add: twoCalls_def getOrSetCache_def stampingFetcher_def cacheReady_def CACHE_LIMIT_def)
  then have nonEmpty: "\<forall>c\<in>set (calls ?sys). \<forall>w. fetcher c w \<noteq> []"
    by (simp add: cacheReady_def)
  have lease: "elapsed cachedCopySchedule < 10000" by (simp add: cached_copy_no_fallback)
  have none: "fallbackFetchCount ?end = 0" by (simp add: cached_copy_no_fallback)
  have len: "length (calls ?end) = 2" by (simp add: length_calls_run twoCalls_def)
  have pcs: "pc (calls ?end ! 0) = Returned [(cachedScore ''w1'' ''v1'' 80) \<lparr> cachedAt := 0 \<rparr>]"
    "pc (calls ?end ! 1) = Returned [(cachedScore ''w1'' ''v1'' 80) \<lparr> cachedAt := 1 \<rparr>]"
    using cached_copy_lists len
    by (metis nth_map nth_Cons_0 zero_less_numeral,
        metis nth_map nth_Cons_0 nth_Cons_Suc One_nat_def one_less_numeral_iff semiring_norm(76))
  have m: "calls ?end ! 0 \<in> set (calls ?end)" "calls ?end ! 1 \<in> set (calls ?end)"
    using len by simp_all
  have "hasReturned (calls ?end ! 0)" by (simp add: hasReturned_def pcs(1))
  then have returned: "\<exists>c\<in>set (calls ?end). hasReturned c" using m(1) by blast
  have fb: "fallbackFetches (calls ?end ! 0) = 0" "fallbackFetches (calls ?end ! 1) = 0"
    using fallback_le_count [OF m(1)] fallback_le_count [OF m(2)] none by simp_all
  have differ: "[(cachedScore ''w1'' ''v1'' 80) \<lparr> cachedAt := 0 \<rparr>] \<noteq>
                [(cachedScore ''w1'' ''v1'' 80) \<lparr> cachedAt := 1 \<rparr>]"
    by (simp add: cachedScore_def)
  note main = single_flight [OF started, of cachedCopySchedule VacancySubject "''v1''"]
  from main have "\<forall>c\<in>set (calls ?end). singleFlight c" by blast
  then have sf: "singleFlight (calls ?end ! 0)" "singleFlight (calls ?end ! 1)" using m by blast+
  from main keys lease have ex: "length (filter inCritical (calls ?end)) \<le> 1" by blast
  from main keys lease empty nonEmpty none returned
  have one: "fetcherInvocations ?end = 1" by blast
  from main keys lease empty nonEmpty ready
  have "\<forall>a\<in>set (calls ?end). \<forall>b\<in>set (calls ?end).
          \<forall>x y. pc a = Returned x \<and> fallbackFetches a = 0 \<and> pc b = Returned y \<and> fallbackFetches b = 0
            \<longrightarrow> forgetStamps x = forgetStamps y" by blast
  then have "forgetStamps [(cachedScore ''w1'' ''v1'' 80) \<lparr> cachedAt := 0 \<rparr>] =
             forgetStamps [(cachedScore ''w1'' ''v1'' 80) \<lparr> cachedAt := 1 \<rparr>]"
    using m pcs fb by blast
  then show ?thesis using one ex sf pcs differ by blast
qed

section \<open>Not-found in a direct score calculation (C9)\<close>

text \<open>
  A missing worker raises no error: with an existing vacancy and no worker profile,
  \<open>calculateScore\<close> returns a score and writes the pair's row.
\<close>

theorem calculate_score_missing_worker_succeeds:
  "getWorkerProfile smallWorld ''nobody'' = None \<and>
   \<not> isl (fst (calculateScore smallWorld ''nobody'' ''v1'')) \<and>
   matchScore_table (snd (calculateScore smallWorld ''nobody'' ''v1'')) (''nobody'', ''v1'') \<noteq> None"
  by (simp add: calculateScore_def getWorkerProfile_def getVacancy_def smallWorld_def plainVacancy_def
      Let_def upsertMatchScore_def auditLog_def withPair_def)

text \<open>
  C9 (amended). \<open>calculateScore\<close> raises the not-found error
  \<open>VACANCY_NOT_FOUND\<close> when the vacancy is missing; the error comes before any write,
  so the whole state, the \<open>MatchScore\<close> table and the audit table included, is
  unchanged. When the vacancy exists the call succeeds and the pair's row is written,
  whether or not the worker exists.
\<close>

theorem calculate_score_not_found:
  "(getVacancy w vid = None \<longrightarrow>
      calculateScore w wid vid = (Inl (NotFoundException ''VACANCY_NOT_FOUND''), w))
   \<and> (getVacancy w vid \<noteq> None \<longrightarrow>
      \<not> isl (fst (calculateScore w wid vid)) \<and>
      matchScore_table (snd (calculateScore w wid vid)) (wid, vid) \<noteq> None)"
  by (auto simp: calculateScore_def Let_def upsertMatchScore_def auditLog_def withPair_def)

theorem calculate_score_not_found_witness:
  "calculateScore smallWorld ''w1'' ''v9'' = (Inl (NotFoundException ''VACANCY_NOT_FOUND''), smallWorld) \<and>
   \<not> isl (fst (calculateScore smallWorld ''w1'' ''v1'')) \<and>
   matchScore_table (snd (calculateScore smallWorld ''w1'' ''v1'')) (''w1'', ''v1'') \<noteq> None"
proof -
  have a: "getVacancy smallWorld ''v9'' = None" "getVacancy smallWorld ''v1'' \<noteq> None"
    by (simp_all add: getVacancy_def smallWorld_def plainVacancy_def)
  show ?thesis
    using calculate_score_not_found [of smallWorld "''v9''" "''w1''"] calculate_score_not_found [of smallWorld "''v1''" "''w1''"] a by simp
qed

lemma nobody_scores:
  "totalScore (projr (fst (calculateScore smallWorld ''nobody'' ''v1''))) = 165 / 2 \<and>
   isRecommended (projr (fst (calculateScore smallWorld ''nobody'' ''v1'')))"
  by code_simp

section \<open>The single-pair salary score (C10)\<close>

text \<open>
  C10. In the single-pair path, when the vacancy is not negotiable, declares a minimum or
  a maximum salary, and the midpoint of its salary range is positive, the salary score is
  0 whatever the worker profile is; and for every vacancy the salary score is the same for
  any two worker profiles.
\<close>

theorem single_pair_salary_score_zero:
  assumes "\<not> salaryIsNegotiable v"
    and "salaryMin v \<noteq> None \<or> salaryMax v \<noteq> None"
    and "0 < (toNumberOr (salaryMin v) 0 +
              toNumberOr (salaryMax v) (toNumberOr (salaryMin v) 0 * 2)) / 2"
  shows "MatchingService_calculateSalaryScore wp v = 0 \<and>
         MatchingService_calculateSalaryScore wp u = MatchingService_calculateSalaryScore wp' u"
proof
  let ?mn = "toNumberOr (salaryMin v) 0"
  let ?mx = "toNumberOr (salaryMax v) (?mn * 2)"
  let ?m = "(?mn + ?mx) / 2"
  have m: "0 < ?m" using assms(3) .
  have nz: "\<not> (?mn = 0 \<and> ?mx = 0)" using m by auto
  have d: "(1 / 2) * ?m \<noteq> 0" using m by simp
  have r: "\<bar>0 - ?m\<bar> / ((1 / 2) * ?m) = 2" using m by (rule distance_over_deviation)
  show "MatchingService_calculateSalaryScore wp v = 0"
    unfolding MatchingService_calculateSalaryScore_def Let_def
    using assms(1,2) nz d r by (simp add: Math_round_minus_10000)
  show "MatchingService_calculateSalaryScore wp u = MatchingService_calculateSalaryScore wp' u"
    by (simp add: MatchingService_calculateSalaryScore_def)
qed

theorem single_pair_salary_score_zero_witness:
  "\<not> salaryIsNegotiable salariedVacancy \<and> salaryMin salariedVacancy \<noteq> None \<and>
   MatchingService_calculateSalaryScore None salariedVacancy = 0"
proof -
  have a: "\<not> salaryIsNegotiable salariedVacancy"
    by (simp add: salariedVacancy_def plainVacancy_def)
  have b: "salaryMin salariedVacancy \<noteq> None \<or> salaryMax salariedVacancy \<noteq> None"
    by (simp add: salariedVacancy_def plainVacancy_def)
  have c: "0 < (toNumberOr (salaryMin salariedVacancy) 0 +
                toNumberOr (salaryMax salariedVacancy)
                  (toNumberOr (salaryMin salariedVacancy) 0 * 2)) / 2"
    by (simp add: salariedVacancy_def plainVacancy_def toNumberOr_def)
  show ?thesis
    using single_pair_salary_score_zero [OF a b c, of None plainVacancy None] a
    by (simp add: salariedVacancy_def)
qed

end
